theory Spec2Isabelle
  imports Main "HOL-Library.Word" "HOL-Library.AList" "HOL-Library.Multiset"
begin

section \<open>Configuration and bytes\<close>

text \<open>
  The model follows \<^verbatim>\<open>src/data/DataTools.js\<close>. A byte of a \<^verbatim>\<open>DataView\<close> is a
  \<^typ>\<open>char\<close> (eight bits), a view is the list of its bytes. The three delimiter options
  are single characters; the code reads them with \<^verbatim>\<open>charCodeAt(0)\<close>.
\<close>

type_synonym view = "char list"

record config =
  separator :: char
  qualifier :: char
  linebreak :: char
  firstRowHeader :: bool
  maxRowSize :: nat
  chunkSize :: nat
  maxLoadedChunks :: nat
  encoding :: string

definition sizeOf1KB :: nat where
  "sizeOf1KB = 1024"

definition sizeOf1MB :: nat where
  "sizeOf1MB = sizeOf1KB * 1024"

definition defaultConfig :: config where
  "defaultConfig = \<lparr> separator = CHR '','', qualifier = CHR 0x22, linebreak = CHR 0x0A,
     firstRowHeader = True, maxRowSize = sizeOf1KB * 128, chunkSize = sizeOf1MB * 4,
     maxLoadedChunks = 32, encoding = ''utf8'' \<rparr>"

section \<open>readRow\<close>

text \<open>
  A pushed field is \<^verbatim>\<open>new Uint8Array(view.buffer, fieldOffset, i - fieldOffset)\<close>: a window
  on the bytes of the buffer, given by its offset and its length. The view covers its
  whole buffer, as the one \<^verbatim>\<open>readHeader\<close> builds does.
\<close>

record u8array =
  byteOffset :: nat
  byteLength :: nat

definition bytes_of :: "view \<Rightarrow> u8array \<Rightarrow> char list" where
  "bytes_of v a = take (byteLength a) (drop (byteOffset a) v)"

datatype warning = RogueQualifier | UnterminatedQualifier

text \<open>The variables of the loop that live across iterations, with the console output.\<close>

record scan =
  fieldOffset :: nat
  isInQuotes :: bool
  result :: "u8array list"
  warnings :: "warning list"

datatype step = Continue scan | Return nat scan

text \<open>
  One iteration of the \<^verbatim>\<open>for\<close> loop at index \<open>i\<close> (with \<open>i < byteLength\<close>). The tests
  \<^verbatim>\<open>!(i - fieldOffset)\<close> and \<^verbatim>\<open>(i - fieldOffset)\<close> are \<open>i = fieldOffset\<close> and its negation.
  The assignment to \<^verbatim>\<open>char\<close> in the doubled-qualifier branch changes a local that is
  not read again, so that branch leaves the state as it is.
\<close>

definition readRow_step :: "config \<Rightarrow> view \<Rightarrow> nat \<Rightarrow> scan \<Rightarrow> step" where
  "readRow_step cfg v i s =
    (let char = v ! i in
     if char = qualifier cfg then
       (if i = fieldOffset s \<and> \<not> isInQuotes s then Continue (s\<lparr>isInQuotes := True\<rparr>)
        else if i \<noteq> fieldOffset s \<and> i + 1 < length v \<and> v ! (i + 1) = qualifier cfg
          then Continue s
        else if i \<noteq> fieldOffset s \<and> isInQuotes s then Continue (s\<lparr>isInQuotes := False\<rparr>)
        else Continue (s\<lparr>warnings := warnings s @ [RogueQualifier]\<rparr>))
     else if char = separator cfg \<and> \<not> isInQuotes s then
       Continue (s\<lparr>result := result s @
           [\<lparr>byteOffset = fieldOffset s, byteLength = i - fieldOffset s\<rparr>],
         fieldOffset := i + 1\<rparr>)
     else if char = linebreak cfg \<and> \<not> isInQuotes s then
       (let s' = (if isInQuotes s
                  then s\<lparr>warnings := warnings s @ [UnterminatedQualifier],
                         isInQuotes := False\<rparr>
                  else s)
        in Return (i + 1)
             (s'\<lparr>result := result s' @
                [\<lparr>byteOffset = fieldOffset s', byteLength = i - fieldOffset s'\<rparr>]\<rparr>))
     else Continue s)"

text \<open>
  The loop from index \<open>i\<close>: it either returns from inside (\<open>Return\<close>) or runs to the end
  of the view, where \<open>Continue\<close> carries the state that the code after the loop reads.
\<close>

function readRow_loop :: "config \<Rightarrow> view \<Rightarrow> nat \<Rightarrow> scan \<Rightarrow> nat \<times> step" where
  "readRow_loop cfg v i s =
    (if i < length v then
       (case readRow_step cfg v i s of
          Continue s' \<Rightarrow> readRow_loop cfg v (i + 1) s'
        | Return r s' \<Rightarrow> (i, Return r s'))
     else (i, Continue s))"
  by pat_completeness auto
termination
  by (relation "measure (\<lambda>(cfg, v, i, s). length v - i)") auto

declare readRow_loop.simps [simp del]

text \<open>
  \<^verbatim>\<open>readRow(view, offset, result, config)\<close>: the offset it returns, the collector after
  the pushes, and the warnings it printed.
\<close>

definition readRow :: "config \<Rightarrow> view \<Rightarrow> nat \<Rightarrow> u8array list \<Rightarrow> nat \<times> u8array list \<times> warning list" where
  "readRow cfg v offset res =
    (case readRow_loop cfg v offset
            \<lparr>fieldOffset = offset, isInQuotes = False, result = res, warnings = []\<rparr> of
       (i, Return r s) \<Rightarrow> (r, result s, warnings s)
     | (i, Continue s) \<Rightarrow>
         (if i > fieldOffset s
          then (i, result s @ [\<lparr>byteOffset = fieldOffset s, byteLength = i - fieldOffset s\<rparr>],
                warnings s)
          else (i, result s, warnings s)))"

section \<open>Numbers\<close>

text \<open>
  A JavaScript number that holds an integer, or \<^verbatim>\<open>NaN\<close>. Reading a typed array or an
  array past its end gives \<^verbatim>\<open>undefined\<close>, which arithmetic and \<^verbatim>\<open>Math.min\<close>/\<^verbatim>\<open>Math.max\<close>
  turn into \<^verbatim>\<open>NaN\<close>; \<^verbatim>\<open>NaN\<close> absorbs every operation. Integers are exact (the counts
  stay below \<open>2^53\<close>).
\<close>

datatype num = Num int | NaN

fun num_add :: "num \<Rightarrow> num \<Rightarrow> num" where
  "num_add (Num a) (Num b) = Num (a + b)"
| "num_add _ _ = NaN"

fun num_mul :: "num \<Rightarrow> num \<Rightarrow> num" where
  "num_mul (Num a) (Num b) = Num (a * b)"
| "num_mul _ _ = NaN"

fun Math_min :: "num \<Rightarrow> num \<Rightarrow> num" where
  "Math_min (Num a) (Num b) = Num (min a b)"
| "Math_min _ _ = NaN"

fun Math_max :: "num \<Rightarrow> num \<Rightarrow> num" where
  "Math_max (Num a) (Num b) = Num (max a b)"
| "Math_max _ _ = NaN"

definition MAX_SAFE_INTEGER :: int where
  "MAX_SAFE_INTEGER = 2 ^ 53 - 1"

definition MIN_SAFE_INTEGER :: int where
  "MIN_SAFE_INTEGER = - (2 ^ 53 - 1)"

section \<open>readHeader\<close>

record ColumnStat =
  name :: string
  minLength :: num
  maxLength :: num
  emptyCount :: num
  stringCount :: num
  intCount :: num
  floatCount :: num

text \<open>
  \<^verbatim>\<open>String.prototype.trim\<close> removes white space and line terminators at both ends; among
  the code units below 256 these are TAB, LF, VT, FF, CR, SP and NBSP.
\<close>

definition whiteSpace :: "char \<Rightarrow> bool" where
  "whiteSpace c = (of_char c \<in> {9, 10, 11, 12, 13, 32, 160 :: nat})"

definition trim :: "string \<Rightarrow> string" where
  "trim s = rev (dropWhile whiteSpace (rev (dropWhile whiteSpace s)))"

text \<open>The dot of a regular expression matches every code unit but a line terminator.\<close>

definition lineTerminator :: "char \<Rightarrow> bool" where
  "lineTerminator c = (of_char c \<in> {10, 13 :: nat})"

text \<open>
  What the code throws: a \<^verbatim>\<open>TypeError\<close>, a \<^verbatim>\<open>RangeError\<close> or a \<^verbatim>\<open>SyntaxError\<close>.
\<close>

datatype error = TypeError | RangeError | SyntaxError

text \<open>
  \<^verbatim>\<open>new RegExp(`^${q}(.+(?=${q}$))${q}$`)\<close> for a qualifier \<open>q\<close> of one character. The
  pattern characters that are not literal are \<^verbatim>\<open>^ $ . * + ? ( ) [ |\<close> and the backslash. With
  \<^verbatim>\<open>( ) [ * + ?\<close> or the backslash for \<open>q\<close> the text is no pattern and the constructor throws
  a \<^verbatim>\<open>SyntaxError\<close>; with \<^verbatim>\<open>^ $ . |\<close> it is a pattern, of another meaning.
\<close>

definition rx_invalid :: "char \<Rightarrow> bool" where
  "rx_invalid c = (c \<in> set (CHR 0x5C # ''()[*+?''))"

definition rx_literal :: "char \<Rightarrow> bool" where
  "rx_literal c = (c \<notin> set (CHR 0x5C # ''^$.*+?()[|''))"

text \<open>
  \<^verbatim>\<open>s.replace(rx, '$1')\<close> with \<^verbatim>\<open>rx = ^q(.+(?=q$))q$\<close>, for a \<open>q\<close> that makes a pattern.
  For a literal \<open>q\<close> the pattern matches the whole of \<open>s\<close> when \<open>s\<close> is \<open>q\<close>, one or more
  characters without a line terminator, \<open>q\<close>; the group is what stands between the two.
  For \<^verbatim>\<open>.\<close> the first and the last character may be any character but a line terminator.
  For \<^verbatim>\<open>|\<close> the pattern is an alternative whose first branch \<^verbatim>\<open>^\<close> matches the empty
  string at the start, which is replaced by the empty group; for \<^verbatim>\<open>^\<close> and \<^verbatim>\<open>$\<close> the
  pattern asks for the start or the end of the string where one character at least is
  on that side, and matches nothing. Where nothing matches \<open>s\<close> is returned as it is.
\<close>

definition replace_rx :: "char \<Rightarrow> string \<Rightarrow> string" where
  "replace_rx q s =
    (if q \<in> set ''|^$'' then s
     else if q = CHR ''.'' then
       (if 3 \<le> length s \<and> \<not> list_ex lineTerminator s then butlast (tl s) else s)
     else
       (if 3 \<le> length s \<and> hd s = q \<and> last s = q \<and> \<not> list_ex lineTerminator (butlast (tl s))
        then butlast (tl s) else s))"

text \<open>The decimal digits of \<open>i\<close>, as the template literal writes them.\<close>

fun string_of_nat :: "nat \<Rightarrow> string" where
  "string_of_nat n =
    (if n < 10 then [''0123456789'' ! n]
     else string_of_nat (n div 10) @ [''0123456789'' ! (n mod 10)])"

declare string_of_nat.simps [simp del]

text \<open>
  \<^verbatim>\<open>String.fromCharCode(...field)\<close> passes every byte of the field as an argument of one
  call. An engine accepts only so many arguments (\<open>maxArgs\<close>, which differs from engine
  to engine) and throws a \<^verbatim>\<open>RangeError\<close> beyond.
\<close>

definition fromCharCode :: "nat \<Rightarrow> view \<Rightarrow> u8array \<Rightarrow> error + string" where
  "fromCharCode maxArgs v a =
    (if maxArgs < byteLength a then Inl RangeError else Inr (bytes_of v a))"

text \<open>The body of the loop of \<^verbatim>\<open>readHeader\<close> for the index \<open>i\<close>: the entry pushed.\<close>

definition new_ColumnStat :: "nat \<Rightarrow> config \<Rightarrow> view \<Rightarrow> u8array list \<Rightarrow> nat \<Rightarrow> error + ColumnStat" where
  "new_ColumnStat maxArgs cfg v columns i =
    (case fromCharCode maxArgs v (columns ! i) of
       Inl e \<Rightarrow> Inl e
     | Inr str \<Rightarrow>
         (let cleanValue = replace_rx (qualifier cfg) (trim str)
          in Inr \<lparr> name = (if firstRowHeader cfg then cleanValue else ''Column'' @ string_of_nat i),
                   minLength = Num MAX_SAFE_INTEGER,
                   maxLength = Num MIN_SAFE_INTEGER,
                   emptyCount = Num 0,
                   stringCount = Num 0,
                   intCount = Num 0,
                   floatCount = Num 0 \<rparr>))"

text \<open>The loop over the indices of \<^verbatim>\<open>columns\<close>; it ends at the first entry that throws.\<close>

fun header_loop :: "(nat \<Rightarrow> error + ColumnStat) \<Rightarrow> nat list \<Rightarrow> ColumnStat list \<Rightarrow> error + ColumnStat list" where
  "header_loop body [] header = Inr header"
| "header_loop body (i # rest) header =
    (case body i of
       Inl e \<Rightarrow> Inl e
     | Inr c \<Rightarrow> header_loop body rest (header @ [c]))"

text \<open>
  \<^verbatim>\<open>readHeader(file, config)\<close>, the file given by its bytes: the header and the offset, or
  what is thrown. The first \<^verbatim>\<open>min(maxRowSize, file.size)\<close> bytes are read as one row, then
  the pattern is built (whatever \<^verbatim>\<open>firstRowHeader\<close> is), then the loop runs.
\<close>

definition readHeader :: "nat \<Rightarrow> config \<Rightarrow> char list \<Rightarrow> error + ColumnStat list \<times> nat" where
  "readHeader maxArgs cfg file =
    (let buffer = take (min (maxRowSize cfg) (length file)) file;
         (offset, columns, w) = readRow cfg buffer 0 []
     in if rx_invalid (qualifier cfg) then Inl SyntaxError
        else (case header_loop (new_ColumnStat maxArgs cfg buffer columns) [0..<length columns] [] of
                Inl e \<Rightarrow> Inl e
              | Inr header \<Rightarrow> Inr (header, if firstRowHeader cfg then offset else 0)))"

text \<open>
  What the specification says of a header name: the value trimmed, with one surrounding
  pair of qualifier characters stripped. This follows the specification's words and is
  compared with \<open>replace_rx\<close> below.
\<close>

definition spec_cleanValue :: "char \<Rightarrow> string \<Rightarrow> string" where
  "spec_cleanValue q s =
    (let t = trim s in
     if 2 \<le> length t \<and> hd t = q \<and> last t = q then butlast (tl t) else t)"

text \<open>
  Where a scan stands at index \<open>j\<close>: a running scan has its field start at or before \<open>j\<close>,
  a returned one has pushed a last field that ends at \<open>j\<close>.
\<close>

definition row_closed :: "nat \<Rightarrow> step \<Rightarrow> bool" where
  "row_closed j st =
    (case st of
       Continue s \<Rightarrow> fieldOffset s \<le> j
     | Return r s \<Rightarrow> result s \<noteq> [] \<and>
         byteOffset (last (result s)) + byteLength (last (result s)) = j)"

text \<open>
  Fields that follow one another in the view: the first starts at \<open>a\<close>, each next one
  starts one byte (the separator) behind the end of the one before.
\<close>

fun chained :: "nat \<Rightarrow> u8array list \<Rightarrow> bool" where
  "chained a [] = True"
| "chained a (f # fs) = (byteOffset f = a \<and> chained (byteOffset f + byteLength f + 1) fs)"

definition next_start :: "nat \<Rightarrow> u8array list \<Rightarrow> nat" where
  "next_start a fs = (if fs = [] then a else byteOffset (last fs) + byteLength (last fs) + 1)"

text \<open>
  A running scan at index \<open>i\<close> that has pushed the fields \<open>new\<close> behind \<open>res\<close>: they are
  chained from the offset, each is followed by a separator byte before \<open>i\<close>, and the
  field start is behind the last of them.
\<close>

definition tiles :: "config \<Rightarrow> view \<Rightarrow> nat \<Rightarrow> u8array list \<Rightarrow> nat \<Rightarrow> scan \<Rightarrow> u8array list \<Rightarrow> bool" where
  "tiles cfg v offset res i s new =
    (result s = res @ new \<and> chained offset new \<and> fieldOffset s = next_start offset new \<and>
     fieldOffset s \<le> i \<and>
     list_all (\<lambda>f. byteOffset f + byteLength f < i \<and>
                    v ! (byteOffset f + byteLength f) = separator cfg) new)"

text \<open>
  The bytes from \<open>a\<close> up to \<open>b\<close> cut at the separator bytes: the indices of the separators,
  and the pieces between them (one more than there are separators, the empty ones too).
\<close>

definition separators :: "config \<Rightarrow> view \<Rightarrow> nat \<Rightarrow> nat \<Rightarrow> nat list" where
  "separators cfg v a b = filter (\<lambda>j. v ! j = separator cfg) [a..<b]"

definition pieces :: "config \<Rightarrow> view \<Rightarrow> nat \<Rightarrow> nat \<Rightarrow> u8array list" where
  "pieces cfg v a b =
    map2 (\<lambda>s e. \<lparr>byteOffset = s, byteLength = e - s\<rparr>)
      (a # map Suc (separators cfg v a b)) (separators cfg v a b @ [b])"

section \<open>sliceFile\<close>

text \<open>
  An entry of \<^verbatim>\<open>offsets\<close> is \<^verbatim>\<open>{start, end}\<close>. The blob \<^verbatim>\<open>file.slice(start, end)\<close> is
  identified with the two offsets it is cut at.
\<close>

record window =
  w_start :: nat
  w_end :: nat

text \<open>
  The \<^verbatim>\<open>while\<close> loop that fills \<^verbatim>\<open>offsets\<close>. With \<open>chunkSize = 0\<close> and an offset below the
  file size it never ends; the value \<open>None\<close> stands for that.
\<close>

partial_function (option) tentative :: "nat \<Rightarrow> nat \<Rightarrow> nat \<Rightarrow> window list \<Rightarrow> window list option" where
  "tentative fsize csize offset offsets =
    (if offset < fsize
     then tentative fsize csize (offset + csize)
            (offsets @ [\<lparr>w_start = offset, w_end = min (offset + csize) fsize\<rparr>])
     else Some offsets)"

declare tentative.simps [code]

text \<open>
  The options of a \<^verbatim>\<open>calculateOffsets\<close> task (the file apart), and the answer to
  it.
\<close>

record offsets_task =
  t_start :: nat
  t_end :: nat
  t_linebreak :: char
  t_maxRowSize :: nat
  t_index :: nat

record offsets_result =
  r_index :: nat
  r_offset :: nat

definition boundary_tasks :: "config \<Rightarrow> window list \<Rightarrow> offsets_task list" where
  "boundary_tasks cfg offsets =
    map (\<lambda>i. \<lparr>t_start = w_start (offsets ! i), t_end = w_end (offsets ! i),
               t_linebreak = linebreak cfg, t_maxRowSize = maxRowSize cfg, t_index = i\<rparr>)
        [0..<length offsets - 1]"

text \<open>
  Modelled from the spec: the \<^verbatim>\<open>calculateOffsets\<close> worker, which is not in this file.
  \<open>worker\<close> is the offset it reports for a task; its answer carries the index of the
  task.
\<close>

definition run_task :: "(offsets_task \<Rightarrow> nat) \<Rightarrow> offsets_task \<Rightarrow> offsets_result" where
  "run_task worker t = \<lparr>r_index = t_index t, r_offset = worker t\<rparr>"

text \<open>One round of the loop over \<^verbatim>\<open>results\<close>: both updates of \<^verbatim>\<open>offsets\<close>.\<close>

definition shift_boundary :: "offsets_result \<Rightarrow> window list \<Rightarrow> window list" where
  "shift_boundary r offsets =
    (let i = r_index r;
         o1 = offsets[i := (offsets ! i)\<lparr>w_end := w_end (offsets ! i) + r_offset r\<rparr>]
     in o1[i + 1 := (o1 ! (i + 1))\<lparr>w_start := w_start (o1 ! (i + 1)) + r_offset r\<rparr>])"

definition sliceFile :: "(offsets_task \<Rightarrow> nat) \<Rightarrow> nat \<Rightarrow> nat \<Rightarrow> config \<Rightarrow> window list option" where
  "sliceFile worker fsize start cfg =
    (case tentative fsize (chunkSize cfg) start [] of
       None \<Rightarrow> None
     | Some offsets \<Rightarrow>
         (let results = map (run_task worker) (boundary_tasks cfg offsets)
          in Some (fold shift_boundary results offsets)))"

text \<open>The windows the loop is expected to produce, written without the loop.\<close>

definition windows_from :: "nat \<Rightarrow> nat \<Rightarrow> nat \<Rightarrow> nat \<Rightarrow> window list" where
  "windows_from fsize csize start n =
    map (\<lambda>k. \<lparr>w_start = start + k * csize, w_end = min (start + (k + 1) * csize) fsize\<rparr>) [0..<n]"


definition window_count :: "nat \<Rightarrow> nat \<Rightarrow> nat \<Rightarrow> nat" where
  "window_count fsize csize start = (fsize - start + csize - 1) div csize"

section \<open>analyzeBlobs\<close>

text \<open>
  What a \<^verbatim>\<open>parseBlob\<close> task in analysis mode answers: the index of its blob, the two
  counts of \<^verbatim>\<open>stats\<close>, and the buffer \<^verbatim>\<open>columns\<close>, read through a \<^verbatim>\<open>Uint32Array\<close> with six
  entries for each column.
\<close>

record analyze_stats =
  st_rowCount :: nat
  st_malformedRows :: nat

record analyze_result =
  a_index :: nat
  a_stats :: analyze_stats
  a_columns :: "32 word list"

text \<open>\<^verbatim>\<open>metaView[i]\<close>: the entry as a number, \<^verbatim>\<open>undefined\<close> past the end of the array.\<close>

definition typed_get :: "32 word list \<Rightarrow> nat \<Rightarrow> num" where
  "typed_get metaView i = (if i < length metaView then Num (uint (metaView ! i)) else NaN)"

text \<open>
  \<^verbatim>\<open>new DataChunk(blobs[index], header.length, rowCount, config)\<close>; the blob is named by
  its index.
\<close>

record DataChunk =
  dc_blob :: nat
  dc_columnCount :: nat
  dc_rowCount :: nat

record aggregated =
  rowCount :: nat
  malformedRows :: nat

text \<open>The six updates of \<^verbatim>\<open>header[ii]\<close> in the inner loop, where \<open>mi\<close> is \<open>6 * ii\<close>.\<close>

definition update_stat :: "32 word list \<Rightarrow> nat \<Rightarrow> ColumnStat \<Rightarrow> ColumnStat" where
  "update_stat metaView ii h =
    (let mi = ii * 6 in
     h\<lparr>minLength := Math_min (minLength h) (typed_get metaView mi),
       maxLength := Math_max (maxLength h) (typed_get metaView (mi + 1)),
       intCount := num_add (intCount h) (typed_get metaView (mi + 2)),
       floatCount := num_add (floatCount h) (typed_get metaView (mi + 3)),
       stringCount := num_add (stringCount h) (typed_get metaView (mi + 4)),
       emptyCount := num_add (emptyCount h) (typed_get metaView (mi + 5))\<rparr>)"

definition fold_column :: "32 word list \<Rightarrow> nat \<Rightarrow> ColumnStat list \<Rightarrow> ColumnStat list" where
  "fold_column metaView ii header = header[ii := update_stat metaView ii (header ! ii)]"

text \<open>The three things the loop over \<^verbatim>\<open>results\<close> changes.\<close>

record analysis =
  an_chunks :: "nat \<rightharpoonup> DataChunk"
  an_meta :: aggregated
  an_header :: "ColumnStat list"

definition analyze_result_step :: "analyze_result \<Rightarrow> analysis \<Rightarrow> analysis" where
  "analyze_result_step r a =
    \<lparr> an_chunks = (an_chunks a)(a_index r \<mapsto>
          \<lparr>dc_blob = a_index r, dc_columnCount = length (an_header a),
           dc_rowCount = st_rowCount (a_stats r)\<rparr>),
      an_meta = \<lparr>rowCount = rowCount (an_meta a) + st_rowCount (a_stats r),
                 malformedRows = malformedRows (an_meta a) + st_malformedRows (a_stats r)\<rparr>,
      an_header = fold (fold_column (a_columns r)) [0..<length (an_header a)] (an_header a) \<rparr>"

text \<open>
  \<^verbatim>\<open>analyzeBlobs\<close> after \<^verbatim>\<open>Promise.all\<close>: \<open>results\<close> are the answers in the order the loop
  reads them.
\<close>

definition analyzeBlobs :: "ColumnStat list \<Rightarrow> analyze_result list \<Rightarrow> analysis" where
  "analyzeBlobs header results =
    fold analyze_result_step results
      \<lparr>an_chunks = Map.empty, an_meta = \<lparr>rowCount = 0, malformedRows = 0\<rparr>, an_header = header\<rparr>"


text \<open>A header of one column and the answers for two blobs.\<close>

definition ex_header :: "ColumnStat list" where
  "ex_header = [\<lparr>name = ''a'', minLength = Num MAX_SAFE_INTEGER, maxLength = Num MIN_SAFE_INTEGER,
      emptyCount = Num 0, stringCount = Num 0, intCount = Num 0, floatCount = Num 0\<rparr>]"

definition ex_r0 :: analyze_result where
  "ex_r0 = \<lparr>a_index = 0, a_stats = \<lparr>st_rowCount = 2, st_malformedRows = 0\<rparr>,
     a_columns = [1, 3, 2, 0, 0, 0]\<rparr>"

definition ex_r1 :: analyze_result where
  "ex_r1 = \<lparr>a_index = 1, a_stats = \<lparr>st_rowCount = 3, st_malformedRows = 1\<rparr>,
     a_columns = [2, 5, 1, 1, 1, 0]\<rparr>"


section \<open>binaryChunksFromBlobs\<close>

text \<open>
  What a \<^verbatim>\<open>parseBlob\<close> task in binary mode answers: the index of its blob and a header
  with the row count, the width of each column, the type tag of each column and the
  packing order. The encoded rows (\<^verbatim>\<open>data\<close>) are handed on untouched and left out.
\<close>

type_synonym type_tag = nat

record parse_header =
  h_rowCount :: nat
  h_lengths :: "nat list"
  h_types :: "type_tag list"
  h_order :: "nat list"

record parse_result =
  p_index :: nat
  p_header :: parse_header

record BinaryColumn =
  col_name :: string
  col_length :: num
  col_offset :: num
  col_type :: "type_tag option"

record BinaryHeader =
  columns :: "BinaryColumn list"
  names :: "string \<rightharpoonup> nat"
  bh_rowCount :: nat
  rowLength :: num
  dataLength :: num
  dataOffset :: num

text \<open>\<^verbatim>\<open>xs[i]\<close> on an array: \<^verbatim>\<open>undefined\<close> past the end; \<^verbatim>\<open>undefined\<close> as a number is \<^verbatim>\<open>NaN\<close>.\<close>

definition array_get :: "'a list \<Rightarrow> nat \<Rightarrow> 'a option" where
  "array_get xs i = (if i < length xs then Some (xs ! i) else None)"

fun to_num :: "nat option \<Rightarrow> num" where
  "to_num None = NaN"
| "to_num (Some n) = Num (int n)"

text \<open>The first loop: one column for each entry of the header, typed by the first result.\<close>

definition init_columns :: "ColumnStat list \<Rightarrow> type_tag list \<Rightarrow> BinaryColumn list" where
  "init_columns header types =
    map (\<lambda>i. \<lparr>col_name = name (header ! i), col_length = Num 0, col_offset = Num 0,
               col_type = array_get types i\<rparr>) [0..<length header]"

text \<open>
  \<^verbatim>\<open>names\<close> is a plain object: an index assigned to the key \<^verbatim>\<open>__proto__\<close> goes to the
  setter of the prototype, which ignores a number, and no property is stored.
\<close>

definition init_names :: "ColumnStat list \<Rightarrow> (string \<rightharpoonup> nat)" where
  "init_names header =
    fold (\<lambda>i m. if name (header ! i) = ''__proto__'' then m else m(name (header ! i) \<mapsto> i))
      [0..<length header] Map.empty"

text \<open>The second loop, for one result: the row count, the widths, the ordered results.\<close>

definition widen :: "nat list \<Rightarrow> nat \<Rightarrow> BinaryColumn list \<Rightarrow> BinaryColumn list" where
  "widen lengths ii cols =
    cols[ii := (cols ! ii)\<lparr>col_length := Math_max (col_length (cols ! ii)) (to_num (array_get lengths ii))\<rparr>]"

definition measure_result ::
  "parse_result \<Rightarrow> nat \<times> BinaryColumn list \<times> (nat \<rightharpoonup> parse_result) \<Rightarrow>
     nat \<times> BinaryColumn list \<times> (nat \<rightharpoonup> parse_result)" where
  "measure_result r acc =
    (case acc of (rc, cols, ordered) \<Rightarrow>
      (rc + h_rowCount (p_header r),
       fold (widen (h_lengths (p_header r))) [0..<length cols] cols,
       ordered(p_index r \<mapsto> r)))"

text \<open>
  The third loop over \<open>i\<close>: \<^verbatim>\<open>columns[order[i]].offset = offset\<close> raises a TypeError when
  \<^verbatim>\<open>order[i]\<close> is not the index of a column.
\<close>

primrec layout_columns ::
  "nat list \<Rightarrow> nat list \<Rightarrow> num \<times> BinaryColumn list \<Rightarrow> error + num \<times> BinaryColumn list" where
  "layout_columns ord [] acc = Inr acc"
| "layout_columns ord (i # is) acc =
    (case array_get ord i of
       None \<Rightarrow> Inl TypeError
     | Some k \<Rightarrow>
         if k < length (snd acc)
         then layout_columns ord is
                (num_add (fst acc) (col_length (snd acc ! k)),
                 (snd acc)[k := (snd acc ! k)\<lparr>col_offset := fst acc\<rparr>])
         else Inl TypeError)"

text \<open>
  \<^verbatim>\<open>binaryChunksFromBlobs\<close> after \<^verbatim>\<open>Promise.all\<close>. With columns in the header and no
  result, \<^verbatim>\<open>results[0].header\<close> raises a TypeError.
\<close>

definition binaryChunksFromBlobs ::
  "ColumnStat list \<Rightarrow> parse_result list \<Rightarrow> error + BinaryHeader \<times> (nat \<rightharpoonup> parse_result)" where
  "binaryChunksFromBlobs header results =
    (if header \<noteq> [] \<and> results = [] then Inl TypeError
     else
       let types0 = (case results of [] \<Rightarrow> [] | r # _ \<Rightarrow> h_types (p_header r));
           order0 = (case results of [] \<Rightarrow> [] | r # _ \<Rightarrow> h_order (p_header r));
           (rc, cols, ordered) =
              fold measure_result results (0, init_columns header types0, Map.empty)
       in case layout_columns order0 [0..<length header] (Num 0, cols) of
            Inl e \<Rightarrow> Inl e
          | Inr (offset, cols') \<Rightarrow>
              Inr (\<lparr>columns = cols', names = init_names header, bh_rowCount = rc,
                    rowLength = offset, dataLength = num_mul offset (Num (int rc)),
                    dataOffset = Num 0\<rparr>,
                   ordered))"

text \<open>The widest entry a column has over all results.\<close>

definition observed_width :: "parse_result list \<Rightarrow> nat \<Rightarrow> nat" where
  "observed_width results c = Max ((\<lambda>r. h_lengths (p_header r) ! c) ` set results)"

section \<open>mergeChunksIntoBuffer\<close>

text \<open>
  A buffer, with the byte length it was made with. \<^verbatim>\<open>config.output\<close> may be absent, and
  so may its \<^verbatim>\<open>buffer\<close>; an absent \<^verbatim>\<open>offset\<close> is 0.
\<close>

datatype buffer = SharedArrayBuffer nat | ArrayBuffer nat

record merge_output =
  out_buffer :: "buffer option"
  out_offset :: nat

text \<open>The length a constructor makes of its argument: \<^verbatim>\<open>NaN\<close> is 0, a negative one is refused.\<close>

fun to_index :: "num \<Rightarrow> error + nat" where
  "to_index NaN = Inr 0"
| "to_index (Num k) = (if k < 0 then Inl RangeError else Inr (nat k))"

text \<open>A scheduled task: its name, the \<^verbatim>\<open>dataOffset\<close> and the \<^verbatim>\<open>parsed\<close> of its options.\<close>

datatype merge_task =
  MergeIntoBuffer num parse_result
| MergeParsedResults num "parse_result list"

text \<open>The loop of the shared-memory branch.\<close>

fun merge_tasks :: "num \<Rightarrow> num \<Rightarrow> parse_result list \<Rightarrow> merge_task list" where
  "merge_tasks rlen doff [] = []"
| "merge_tasks rlen doff (c # cs) =
     MergeIntoBuffer doff c #
     merge_tasks rlen (num_add doff (num_mul (Num (int (h_rowCount (p_header c)))) rlen)) cs"

text \<open>
  \<^verbatim>\<open>mergeChunksIntoBuffer(chunks, binaryHeader, config)\<close> up to the scheduling of its tasks:
  the header, the buffer and the tasks. \<open>supportsSharedMemory\<close> is the constant of that
  name.
\<close>

definition mergeChunksIntoBuffer ::
  "bool \<Rightarrow> parse_result list \<Rightarrow> BinaryHeader \<Rightarrow> merge_output option \<Rightarrow>
     error + BinaryHeader \<times> buffer \<times> merge_task list" where
  "mergeChunksIntoBuffer supportsSharedMemory chunks binaryHeader output =
    (let given = (case output of None \<Rightarrow> None | Some out \<Rightarrow> out_buffer out);
         bh = (case output of
                 None \<Rightarrow> binaryHeader
               | Some out \<Rightarrow>
                   if out_buffer out \<noteq> None \<and> out_offset out \<noteq> 0
                   then binaryHeader\<lparr>dataOffset := Num (int (out_offset out))\<rparr>
                   else binaryHeader);
         made = (case given of
                   Some b \<Rightarrow> Inr b
                 | None \<Rightarrow>
                     (case to_index (dataLength bh) of
                        Inl e \<Rightarrow> Inl e
                      | Inr n \<Rightarrow>
                          Inr (if supportsSharedMemory then SharedArrayBuffer n else ArrayBuffer n)))
     in case made of
          Inl e \<Rightarrow> Inl e
        | Inr (SharedArrayBuffer n) \<Rightarrow>
            if supportsSharedMemory
            then Inr (bh, SharedArrayBuffer n, merge_tasks (rowLength bh) (dataOffset bh) chunks)
            else Inr (bh, SharedArrayBuffer n, [MergeParsedResults (dataOffset bh) chunks])
        | Inr (ArrayBuffer n) \<Rightarrow>
            Inr (bh, ArrayBuffer n, [MergeParsedResults (dataOffset bh) chunks]))"

text \<open>
  Modelled from the spec: the worker task \<^verbatim>\<open>mergeIntoBuffer\<close>, which is not in this file.
  The region it writes starts at the \<^verbatim>\<open>dataOffset\<close> of its options and spans the row
  count of its chunk times the row length.
\<close>

fun write_region :: "BinaryHeader \<Rightarrow> merge_task \<Rightarrow> num \<times> num" where
  "write_region bh (MergeIntoBuffer doff c) =
     (doff, num_add doff (num_mul (Num (int (h_rowCount (p_header c)))) (rowLength bh)))"
| "write_region bh (MergeParsedResults doff cs) = (doff, num_add doff (dataLength bh))"


text \<open>
  Where the region of chunk \<open>i\<close> starts: the data offset \<open>D\<close> plus, for each chunk before \<open>i\<close>,
  its row count times the row length \<open>L\<close>.
\<close>

definition region_start :: "nat \<Rightarrow> nat \<Rightarrow> parse_result list \<Rightarrow> nat \<Rightarrow> nat" where
  "region_start D L chunks i =
     D + sum_list (map (\<lambda>c. h_rowCount (p_header c) * L) (take i chunks))"

text \<open>The answers for two blobs of a file with two columns, and the header made of them.\<close>

definition ex_p0 :: parse_result where
  "ex_p0 = \<lparr>p_index = 0, p_header = \<lparr>h_rowCount = 2, h_lengths = [1, 4], h_types = [0, 2], h_order = [1, 0]\<rparr>\<rparr>"

definition ex_p1 :: parse_result where
  "ex_p1 = \<lparr>p_index = 1, p_header = \<lparr>h_rowCount = 3, h_lengths = [2, 3], h_types = [1, 2], h_order = [0, 1]\<rparr>\<rparr>"

definition ex_hdr2 :: "ColumnStat list" where
  "ex_hdr2 = map (\<lambda>n. \<lparr>name = n, minLength = Num 0, maxLength = Num 0,
      emptyCount = Num 0, stringCount = Num 0, intCount = Num 0, floatCount = Num 0\<rparr>) [''a'', ''b'']"

definition ex_bh :: BinaryHeader where
  "ex_bh = \<lparr>columns =
       [\<lparr>col_name = ''a'', col_length = Num 2, col_offset = Num 4, col_type = Some 0\<rparr>,
        \<lparr>col_name = ''b'', col_length = Num 4, col_offset = Num 0, col_type = Some 2\<rparr>],
     names = init_names ex_hdr2, bh_rowCount = 5, rowLength = Num 6, dataLength = Num 30,
     dataOffset = Num 0\<rparr>"


section \<open>iterateBlobs\<close>

text \<open>
  What a \<^verbatim>\<open>parseBlob\<close> task in load mode answers, as far as \<^verbatim>\<open>iterateBlobs\<close> reads it: the
  index of its blob and the row count of the chunk \<^verbatim>\<open>DataChunk.fromLoadResult\<close> makes of it.
\<close>

record load_result =
  l_index :: nat
  l_rowCount :: nat

text \<open>
  The state the closures of \<^verbatim>\<open>iterateBlobs\<close> share. A task is named by the index of its
  blob: \<open>tasks\<close> are the ones not yet scheduled, \<open>inflight\<close> the scheduled ones whose
  answer has not arrived. \<open>results\<close> is the object that buffers answers by index. \<open>calls\<close>
  records every call \<^verbatim>\<open>itr(row, index++)\<close>: the chunk the row belongs to, the row set by
  \<^verbatim>\<open>row.setIndex\<close>, and the second argument. \<open>resolved\<close> tells whether \<^verbatim>\<open>resolve()\<close> has been
  called. \<open>strays\<close> counts the tasks scheduled with \<^verbatim>\<open>undefined\<close> options, which happens
  when the pool has more workers than there are blobs: such a task names no blob, and
  whatever comes back for it has no index equal to \<open>blobIndex\<close> or to the key of a blob.
\<close>

record iteration =
  tasks :: "nat list"
  inflight :: "nat list"
  strays :: nat
  results :: "(nat \<times> load_result) list"
  blobIndex :: nat
  index :: nat
  calls :: "(nat \<times> nat \<times> nat) list"
  resolved :: bool

text \<open>\<^verbatim>\<open>workerPool.scheduleTask('parseBlob', tasks.shift())\<close>, without and with the guard.\<close>

definition schedule_shift :: "iteration \<Rightarrow> iteration" where
  "schedule_shift st =
    (case tasks st of
       [] \<Rightarrow> st\<lparr>strays := strays st + 1\<rparr>
     | t # ts \<Rightarrow> st\<lparr>tasks := ts, inflight := inflight st @ [t]\<rparr>)"

definition schedule_if_any :: "iteration \<Rightarrow> iteration" where
  "schedule_if_any st = (if tasks st \<noteq> [] then schedule_shift st else st)"

text \<open>
  \<^verbatim>\<open>invokeIterator(result)\<close> for \<open>n\<close> blobs: the loop calls \<^verbatim>\<open>itr(row, index++)\<close> once for
  each row \<open>i\<close> of the chunk; then \<^verbatim>\<open>blobIndex >= blobs.length - 1\<close> decides on
  \<^verbatim>\<open>resolve()\<close>.
\<close>

definition call_row :: "load_result \<Rightarrow> nat \<Rightarrow> iteration \<Rightarrow> iteration" where
  "call_row r i st = st\<lparr>calls := calls st @ [(l_index r, i, index st)], index := index st + 1\<rparr>"

definition invokeIterator :: "nat \<Rightarrow> load_result \<Rightarrow> iteration \<Rightarrow> iteration" where
  "invokeIterator n r st =
    (let st' = fold (call_row r) [0..<l_rowCount r] st
     in if n \<le> blobIndex st' + 1 then st'\<lparr>resolved := True\<rparr> else st')"

text \<open>
  The \<^verbatim>\<open>while (results.hasOwnProperty(++blobIndex))\<close> loop. Each round deletes a key of
  \<open>results\<close>, which is why it ends.
\<close>

function drain :: "nat \<Rightarrow> iteration \<Rightarrow> iteration" where
  "drain n st =
    (let st1 = st\<lparr>blobIndex := blobIndex st + 1\<rparr> in
     case map_of (results st1) (blobIndex st1) of
       None \<Rightarrow> st1
     | Some r \<Rightarrow>
         drain n (schedule_if_any
           ((invokeIterator n r st1)\<lparr>results := AList.delete (blobIndex st1) (results st1)\<rparr>)))"
  by pat_completeness auto
termination
proof (relation "measure (\<lambda>(n, st). length (results st))")
  show "wf (measure (\<lambda>(n, st). length (results st)))" by simp
next
  fix n :: nat and st st1 :: iteration and r :: load_result
  assume st1: "st1 = st\<lparr>blobIndex := blobIndex st + 1\<rparr>"
    and r: "map_of (results st1) (blobIndex st1) = Some r"
  from r have "(blobIndex st1, r) \<in> set (results st1)" by (rule map_of_SomeD)
  then have "length (filter (\<lambda>p. blobIndex st1 \<noteq> fst p) (results st1)) < length (results st1)"
    by (intro length_filter_less[of "(blobIndex st1, r)"]) simp_all
  then have "length (AList.delete (blobIndex st1) (results st1)) < length (results st)"
    by (simp add: AList.delete_eq st1 case_prod_unfold)
  then show "((n, schedule_if_any
           ((invokeIterator n r st1)\<lparr>results := AList.delete (blobIndex st1) (results st1)\<rparr>)),
        (n, st)) \<in> measure (\<lambda>(n, st). length (results st))"
    by (simp add: schedule_if_any_def schedule_shift_def split: list.splits)
qed

declare drain.simps [simp del]

definition handleResult :: "nat \<Rightarrow> load_result \<Rightarrow> iteration \<Rightarrow> iteration" where
  "handleResult n r st =
    (if l_index r = blobIndex st
     then drain n (schedule_if_any (invokeIterator n r st))
     else st\<lparr>results := AList.update (l_index r) r (results st)\<rparr>)"

text \<open>
  The \<^verbatim>\<open>for\<close> loop that seeds one task for each of the \<open>p\<close> workers of the pool, and the
  state it starts from, for \<open>n\<close> blobs.
\<close>

primrec seed :: "nat \<Rightarrow> iteration \<Rightarrow> iteration" where
  "seed 0 st = st"
| "seed (Suc p) st = seed p (schedule_shift st)"

definition start_iteration :: "nat \<Rightarrow> nat \<Rightarrow> iteration" where
  "start_iteration p n =
    seed p \<lparr>tasks = [0..<n], inflight = [], strays = 0, results = [], blobIndex = 0,
            index = 0, calls = [], resolved = False\<rparr>"

text \<open>
  Modelled from the spec: the worker pool (\<^verbatim>\<open>WorkerPool.scheduleTask\<close>), which is not in
  this file. The pool fulfils the promise of a task \<open>k\<close> that is in flight, and
  \<^verbatim>\<open>handleResult\<close> runs on the answer, which carries the index \<open>k\<close> and the row count of
  blob \<open>k\<close>; \<open>rcs\<close> gives the row count of every blob. A run takes the tasks in the order
  in which they complete; it is \<open>None\<close> when that order names a task that is not in flight.
\<close>

definition complete :: "nat list \<Rightarrow> nat \<Rightarrow> iteration \<Rightarrow> iteration" where
  "complete rcs k st =
    handleResult (length rcs) \<lparr>l_index = k, l_rowCount = rcs ! k\<rparr>
      (st\<lparr>inflight := remove1 k (inflight st)\<rparr>)"

fun run :: "nat list \<Rightarrow> nat list \<Rightarrow> iteration \<Rightarrow> iteration option" where
  "run rcs [] st = Some st"
| "run rcs (k # ks) st = (if k \<in> set (inflight st) then run rcs ks (complete rcs k st) else None)"

definition iterateBlobs :: "nat \<Rightarrow> nat list \<Rightarrow> nat list \<Rightarrow> iteration option" where
  "iterateBlobs p rcs order = run rcs order (start_iteration p (length rcs))"

text \<open>
  The calls in source order, as the specification asks for them: all rows of chunk 0 in
  row order, then all rows of chunk 1, and so on, the second argument counting the rows
  from 0.
\<close>

fun source_calls_from :: "nat \<Rightarrow> nat \<Rightarrow> nat list \<Rightarrow> (nat \<times> nat \<times> nat) list" where
  "source_calls_from c g [] = []"
| "source_calls_from c g (rc # rcs) =
     map (\<lambda>i. (c, i, g + i)) [0..<rc] @ source_calls_from (c + 1) (g + rc) rcs"

definition source_calls :: "nat list \<Rightarrow> (nat \<times> nat \<times> nat) list" where
  "source_calls rcs = source_calls_from 0 0 rcs"

text \<open>
  What holds of the shared state between two answers, for blobs with the row counts
  \<open>rcs\<close>: the tasks not yet scheduled are the last ones; the scheduled tasks from
  \<open>blobIndex\<close> on are in flight or buffered, none of them twice; the next expected task is
  scheduled as long as a blob is left; a buffered answer sits under its own index and
  carries the row count of its blob; the calls made so far are the calls for the chunks
  before \<open>blobIndex\<close>, in source order; and \<^verbatim>\<open>resolve()\<close> has been called exactly when all
  chunks are consumed. Inside \<^verbatim>\<open>handleResult\<close> the answer for \<open>blobIndex\<close> may be buffered
  (\<open>consistent\<close>); between two answers it is not (\<open>settled\<close>).
\<close>

definition consistent :: "nat list \<Rightarrow> iteration \<Rightarrow> bool" where
  "consistent rcs st =
    ((\<exists>s. tasks st = [s..<length rcs] \<and> blobIndex st \<le> s \<and> s \<le> length rcs \<and>
          (blobIndex st < length rcs \<longrightarrow> blobIndex st < s) \<and>
          set (inflight st) \<union> fst ` set (results st) = {blobIndex st..<s}) \<and>
     distinct (inflight st) \<and> distinct (map fst (results st)) \<and>
     set (inflight st) \<inter> fst ` set (results st) = {} \<and>
     (\<forall>k r. (k, r) \<in> set (results st) \<longrightarrow> l_index r = k \<and> l_rowCount r = rcs ! k) \<and>
     calls st = source_calls (take (blobIndex st) rcs) \<and>
     index st = sum_list (take (blobIndex st) rcs) \<and>
     (resolved st \<longleftrightarrow> blobIndex st = length rcs \<and> rcs \<noteq> []))"

definition settled :: "nat list \<Rightarrow> iteration \<Rightarrow> bool" where
  "settled rcs st = (consistent rcs st \<and> blobIndex st \<notin> fst ` set (results st))"

text \<open>The tasks that have not completed yet.\<close>

definition pending :: "iteration \<Rightarrow> nat" where
  "pending st = length (tasks st) + length (inflight st)"


section \<open>Properties of readRow\<close>


lemma readRow_loop_Return:
  "readRow_loop cfg v i s = (j, Return r s') \<Longrightarrow>
     i \<le> j \<and> j < length v \<and> r = j + 1 \<and> v ! j = linebreak cfg"
proof (induction cfg v i s rule: readRow_loop.induct)
  case (1 cfg v i s)
  show ?case
  proof (cases "i < length v")
    case False
    with "1.prems" show ?thesis by (simp add: readRow_loop.simps)
  next
    case True
    show ?thesis
    proof (cases "readRow_step cfg v i s")
      case (Continue s1)
      with True "1.prems" have "readRow_loop cfg v (i + 1) s1 = (j, Return r s')"
        by (simp add: readRow_loop.simps)
      from "1.IH"[OF True Continue this] show ?thesis by simp
    next
      case (Return r1 s1)
      with True "1.prems" have "j = i" "r1 = r" "s1 = s'"
        by (simp_all add: readRow_loop.simps)
      with Return True show ?thesis
        by (auto simp: readRow_step_def Let_def split: if_splits)
    qed
  qed
qed

lemma readRow_loop_Continue:
  "readRow_loop cfg v i s = (j, Continue s') \<Longrightarrow> i \<le> length v \<Longrightarrow> j = length v"
proof (induction cfg v i s rule: readRow_loop.induct)
  case (1 cfg v i s)
  show ?case
  proof (cases "i < length v")
    case False
    with "1.prems" show ?thesis by (simp add: readRow_loop.simps)
  next
    case True
    show ?thesis
    proof (cases "readRow_step cfg v i s")
      case (Continue s1)
      with True "1.prems" have "readRow_loop cfg v (i + 1) s1 = (j, Continue s')"
        by (simp add: readRow_loop.simps)
      from "1.IH"[OF True Continue this] True show ?thesis by simp
    next
      case (Return r1 s1)
      with True "1.prems" show ?thesis
        by (simp add: readRow_loop.simps)
    qed
  qed
qed

lemma readRow_step_fieldOffset:
  "fieldOffset s \<le> i \<Longrightarrow> readRow_step cfg v i s = Continue s' \<Longrightarrow> fieldOffset s' \<le> i + 1"
  by (auto simp: readRow_step_def Let_def split: if_splits)

lemma readRow_step_closed:
  "fieldOffset s \<le> i \<Longrightarrow> readRow_step cfg v i s = Return r s' \<Longrightarrow> row_closed i (Return r s')"
  by (auto simp: readRow_step_def Let_def row_closed_def split: if_splits)

lemma readRow_loop_closed:
  "fieldOffset s \<le> i \<Longrightarrow> readRow_loop cfg v i s = (j, st) \<Longrightarrow> row_closed j st"
proof (induction cfg v i s rule: readRow_loop.induct)
  case (1 cfg v i s)
  show ?case
  proof (cases "i < length v")
    case False
    with "1.prems" show ?thesis by (auto simp: readRow_loop.simps row_closed_def)
  next
    case True
    show ?thesis
    proof (cases "readRow_step cfg v i s")
      case (Continue s1)
      with True "1.prems" have run: "readRow_loop cfg v (i + 1) s1 = (j, st)"
        by (simp add: readRow_loop.simps)
      from readRow_step_fieldOffset[OF "1.prems"(1) Continue]
      have "fieldOffset s1 \<le> i + 1" .
      from "1.IH"[OF True Continue this run] show ?thesis .
    next
      case (Return r1 s1)
      with True "1.prems" have "j = i" "st = Return r1 s1"
        by (simp_all add: readRow_loop.simps)
      with readRow_step_closed[OF "1.prems"(1) Return] show ?thesis by simp
    qed
  qed
qed

text \<open>
  A stretch of the view without a qualifier and without a line-break byte, scanned
  outside quotes: one field is pushed for each separator byte.
\<close>
lemma readRow_loop_plain:
  assumes "\<not> isInQuotes s" "i \<le> b" "b \<le> length v"
    "\<forall>j. i \<le> j \<and> j < b \<longrightarrow> v ! j \<noteq> qualifier cfg \<and> v ! j \<noteq> linebreak cfg"
  shows "readRow_loop cfg v i s =
     readRow_loop cfg v b
       (s\<lparr>result := result s @ map2 (\<lambda>s e. \<lparr>byteOffset = s, byteLength = e - s\<rparr>)
                                  (fieldOffset s # map Suc (separators cfg v i b)) (separators cfg v i b),
          fieldOffset := last (fieldOffset s # map Suc (separators cfg v i b))\<rparr>)"
  using assms
proof (induction "b - i" arbitrary: i s)
  case 0
  then have "i = b" by simp
  then show ?case by (simp add: separators_def)
next
  case (Suc n)
  then have ib: "i < b" and iv: "i < length v" by simp_all
  from Suc.prems(4) ib have ch: "v ! i \<noteq> qualifier cfg" "v ! i \<noteq> linebreak cfg" by simp_all
  have up: "[i..<b] = i # [Suc i..<b]" using ib by (simp add: upt_conv_Cons)
  show ?case
  proof (cases "v ! i = separator cfg")
    case True
    define s1 where "s1 = s\<lparr>result := result s @ [\<lparr>byteOffset = fieldOffset s, byteLength = i - fieldOffset s\<rparr>],
                            fieldOffset := i + 1\<rparr>"
    from True ch Suc.prems(1) have st: "readRow_step cfg v i s = Continue s1"
      by (simp add: readRow_step_def Let_def s1_def)
    have q1: "\<not> isInQuotes s1" using Suc.prems(1) by (simp add: s1_def)
    have IH: "readRow_loop cfg v (Suc i) s1 =
       readRow_loop cfg v b
       (s1\<lparr>result := result s1 @ map2 (\<lambda>s e. \<lparr>byteOffset = s, byteLength = e - s\<rparr>)
                                  (fieldOffset s1 # map Suc (separators cfg v (Suc i) b)) (separators cfg v (Suc i) b),
          fieldOffset := last (fieldOffset s1 # map Suc (separators cfg v (Suc i) b))\<rparr>)"
      using Suc.hyps(1)[of "Suc i" s1] Suc.hyps(2) q1 ib Suc.prems(3,4) by simp
    have seps: "separators cfg v i b = i # separators cfg v (Suc i) b"
      using True up by (simp add: separators_def)
    have "readRow_loop cfg v i s = readRow_loop cfg v (Suc i) s1"
      using iv st by (simp add: readRow_loop.simps[of cfg v i s])
    also note IH
    finally show ?thesis by (simp add: seps s1_def)
  next
    case False
    from False ch have st: "readRow_step cfg v i s = Continue s"
      by (simp add: readRow_step_def Let_def)
    have IH: "readRow_loop cfg v (Suc i) s =
       readRow_loop cfg v b
       (s\<lparr>result := result s @ map2 (\<lambda>s e. \<lparr>byteOffset = s, byteLength = e - s\<rparr>)
                                  (fieldOffset s # map Suc (separators cfg v (Suc i) b)) (separators cfg v (Suc i) b),
          fieldOffset := last (fieldOffset s # map Suc (separators cfg v (Suc i) b))\<rparr>)"
      using Suc.hyps(1)[of "Suc i" s] Suc.hyps(2) Suc.prems(1) ib Suc.prems(3,4) by simp
    have seps: "separators cfg v i b = separators cfg v (Suc i) b"
      using False up by (simp add: separators_def)
    have "readRow_loop cfg v i s = readRow_loop cfg v (Suc i) s"
      using iv st by (simp add: readRow_loop.simps[of cfg v i s])
    also note IH
    finally show ?thesis by (simp add: seps)
  qed
qed

lemma last_start_le:
  "a \<le> b \<Longrightarrow> last (a # map Suc (separators cfg v a b)) \<le> b"
proof -
  assume ab: "a \<le> b"
  have "\<forall>x\<in>set (a # map Suc (separators cfg v a b)). x \<le> b"
    using ab by (auto simp: separators_def)
  moreover have "last (a # map Suc (separators cfg v a b)) \<in> set (a # map Suc (separators cfg v a b))"
    by (rule last_in_set) simp
  ultimately show ?thesis by blast
qed

lemma pieces_split:
  "pieces cfg v a b =
     map2 (\<lambda>s e. \<lparr>byteOffset = s, byteLength = e - s\<rparr>)
        (a # map Suc (separators cfg v a b)) (separators cfg v a b)
     @ [\<lparr>byteOffset = last (a # map Suc (separators cfg v a b)),
         byteLength = b - last (a # map Suc (separators cfg v a b))\<rparr>]"
proof -
  define xs where "xs = a # map Suc (separators cfg v a b)"
  define ys where "ys = separators cfg v a b"
  have len: "length xs = Suc (length ys)" by (simp add: xs_def ys_def)
  then have ne: "xs \<noteq> []" by auto
  have "zip xs (ys @ [b]) = zip (butlast xs @ [last xs]) (ys @ [b])"
    using ne by simp
  also have "\<dots> = zip (butlast xs) ys @ zip [last xs] [b]"
    using len by (intro zip_append) simp
  also have "zip (butlast xs) ys = zip xs ys"
  proof -
    have "zip xs ys = zip (butlast xs @ [last xs]) (ys @ [])" using ne by simp
    also have "\<dots> = zip (butlast xs) ys @ zip [last xs] []"
      using len by (intro zip_append) simp
    finally show ?thesis by simp
  qed
  finally have "zip xs (ys @ [b]) = zip xs ys @ [(last xs, b)]" by simp
  then have "map2 (\<lambda>s e. \<lparr>byteOffset = s, byteLength = e - s\<rparr>) xs (ys @ [b]) =
      map2 (\<lambda>s e. \<lparr>byteOffset = s, byteLength = e - s\<rparr>) xs ys
      @ [\<lparr>byteOffset = last xs, byteLength = b - last xs\<rparr>]"
    by simp
  then show ?thesis
    unfolding pieces_def xs_def ys_def .
qed

lemma readRow_first_linebreak:
  assumes "offset \<le> k" "k < length v" "v ! k = linebreak cfg" "linebreak cfg \<noteq> separator cfg"
    "\<forall>j. offset \<le> j \<and> j < k \<longrightarrow> v ! j \<noteq> linebreak cfg"
    "\<forall>j. offset \<le> j \<and> j \<le> k \<longrightarrow> v ! j \<noteq> qualifier cfg"
  shows "readRow cfg v offset res = (k + 1, res @ pieces cfg v offset k, [])"
proof -
  define s0 where "s0 = \<lparr>fieldOffset = offset, isInQuotes = False, result = res, warnings = []\<rparr>"
  define sk where "sk = s0\<lparr>result := result s0 @ map2 (\<lambda>s e. \<lparr>byteOffset = s, byteLength = e - s\<rparr>)
                                  (fieldOffset s0 # map Suc (separators cfg v offset k)) (separators cfg v offset k),
          fieldOffset := last (fieldOffset s0 # map Suc (separators cfg v offset k))\<rparr>"
  have "readRow_loop cfg v offset s0 = readRow_loop cfg v k sk"
    unfolding sk_def
    by (rule readRow_loop_plain) (use assms in \<open>auto simp: s0_def\<close>)
  moreover have "readRow_step cfg v k sk =
      Return (k + 1) (sk\<lparr>result := result sk @ [\<lparr>byteOffset = fieldOffset sk, byteLength = k - fieldOffset sk\<rparr>]\<rparr>)"
  proof -
    from assms(1,6) have "v ! k \<noteq> qualifier cfg" by simp
    with assms(3) have "linebreak cfg \<noteq> qualifier cfg" by simp
    with assms(3,4) show ?thesis
      by (simp add: readRow_step_def Let_def sk_def s0_def)
  qed
  ultimately have "readRow_loop cfg v offset s0 =
      (k, Return (k + 1) (sk\<lparr>result := result sk @ [\<lparr>byteOffset = fieldOffset sk, byteLength = k - fieldOffset sk\<rparr>]\<rparr>))"
    using assms(2) by (simp add: readRow_loop.simps[of cfg v k sk])
  then show ?thesis
    unfolding readRow_def s0_def[symmetric]
    by (simp add: pieces_split sk_def s0_def)
qed

lemma readRow_no_linebreak:
  assumes "offset \<le> length v"
    "\<forall>j. offset \<le> j \<and> j < length v \<longrightarrow> v ! j \<noteq> linebreak cfg \<and> v ! j \<noteq> qualifier cfg"
  shows "readRow cfg v offset res =
     (length v,
      res @ (if byteLength (last (pieces cfg v offset (length v))) = 0
             then butlast (pieces cfg v offset (length v))
             else pieces cfg v offset (length v)), [])"
proof -
  define s0 where "s0 = \<lparr>fieldOffset = offset, isInQuotes = False, result = res, warnings = []\<rparr>"
  define sk where "sk = s0\<lparr>result := result s0 @ map2 (\<lambda>s e. \<lparr>byteOffset = s, byteLength = e - s\<rparr>)
                                  (fieldOffset s0 # map Suc (separators cfg v offset (length v))) (separators cfg v offset (length v)),
          fieldOffset := last (fieldOffset s0 # map Suc (separators cfg v offset (length v)))\<rparr>"
  have "readRow_loop cfg v offset s0 = readRow_loop cfg v (length v) sk"
    unfolding sk_def
    by (rule readRow_loop_plain) (use assms in \<open>auto simp: s0_def\<close>)
  then have run: "readRow_loop cfg v offset s0 = (length v, Continue sk)"
    by (simp add: readRow_loop.simps[of cfg v "length v" sk])
  have fo: "fieldOffset sk \<le> length v"
    using last_start_le[OF assms(1), of cfg v] by (simp add: sk_def s0_def)
  show ?thesis
    unfolding readRow_def s0_def[symmetric] run
    using fo by (auto simp: pieces_split sk_def s0_def)
qed

text \<open>
  Claim C9. Called with an offset inside the view, \<open>readRow\<close> either leaves its loop at a
  line-break byte at index \<open>i\<close>, and then returns \<open>i + 1\<close>, the last field pushed being the
  one that ends at \<open>i\<close>; or it runs to the end of the view, and then returns the length of
  the view and pushes the trailing field exactly when the number of bytes since the last
  field start is not zero. A view without a line-break byte from the offset on is in the
  second case. A line-break byte outside quotes ends the row: when the first line-break
  byte from the offset on is at index \<open>k\<close> and no qualifier byte stands before it (the
  line-break not being the separator), \<open>k + 1\<close> is returned and the fields pushed are the
  pieces between the separators from the offset up to \<open>k\<close>. When there is neither a
  line-break nor a qualifier byte from the offset on, the length of the view is returned
  and the fields pushed are the pieces up to the end of the view, the last one only if it
  is not empty.
\<close>
theorem readRow_offset_and_trailing_field:
  assumes "offset \<le> length v"
  shows "(\<forall>i r s. readRow_loop cfg v offset
              \<lparr>fieldOffset = offset, isInQuotes = False, result = res, warnings = []\<rparr>
            = (i, Return r s) \<longrightarrow>
          offset \<le> i \<and> i < length v \<and> v ! i = linebreak cfg \<and>
          readRow cfg v offset res = (i + 1, result s, warnings s) \<and>
          result s \<noteq> [] \<and> byteOffset (last (result s)) + byteLength (last (result s)) = i)
       \<and> (\<forall>i s. readRow_loop cfg v offset
              \<lparr>fieldOffset = offset, isInQuotes = False, result = res, warnings = []\<rparr>
            = (i, Continue s) \<longrightarrow>
          i = length v \<and> fieldOffset s \<le> length v \<and>
          readRow cfg v offset res =
            (length v,
             (if length v - fieldOffset s \<noteq> 0
              then result s @ [\<lparr>byteOffset = fieldOffset s, byteLength = length v - fieldOffset s\<rparr>]
              else result s),
             warnings s))
       \<and> ((\<forall>k. offset \<le> k \<and> k < length v \<longrightarrow> v ! k \<noteq> linebreak cfg) \<longrightarrow>
            fst (readRow cfg v offset res) = length v)
       \<and> (\<forall>k. offset \<le> k \<and> k < length v \<and> v ! k = linebreak cfg \<and>
              linebreak cfg \<noteq> separator cfg \<and>
              (\<forall>j. offset \<le> j \<and> j < k \<longrightarrow> v ! j \<noteq> linebreak cfg) \<and>
              (\<forall>j. offset \<le> j \<and> j \<le> k \<longrightarrow> v ! j \<noteq> qualifier cfg) \<longrightarrow>
            readRow cfg v offset res = (k + 1, res @ pieces cfg v offset k, []))
       \<and> ((\<forall>j. offset \<le> j \<and> j < length v \<longrightarrow>
               v ! j \<noteq> linebreak cfg \<and> v ! j \<noteq> qualifier cfg) \<longrightarrow>
            readRow cfg v offset res =
              (length v,
               res @ (if byteLength (last (pieces cfg v offset (length v))) = 0
                      then butlast (pieces cfg v offset (length v))
                      else pieces cfg v offset (length v)),
               []))"
proof (intro conjI allI impI)
  fix i r s
  assume run: "readRow_loop cfg v offset
      \<lparr>fieldOffset = offset, isInQuotes = False, result = res, warnings = []\<rparr> = (i, Return r s)"
  from readRow_loop_Return[OF run]
  show "offset \<le> i" "i < length v" "v ! i = linebreak cfg" by simp_all
  from readRow_loop_Return[OF run] have "r = i + 1" by simp
  with run show "readRow cfg v offset res = (i + 1, result s, warnings s)"
    by (simp add: readRow_def)
  from readRow_loop_closed[OF _ run]
  show "result s \<noteq> []" "byteOffset (last (result s)) + byteLength (last (result s)) = i"
    by (simp_all add: row_closed_def)
next
  fix i s
  assume run: "readRow_loop cfg v offset
      \<lparr>fieldOffset = offset, isInQuotes = False, result = res, warnings = []\<rparr> = (i, Continue s)"
  from readRow_loop_Continue[OF run assms] show i: "i = length v" .
  from readRow_loop_closed[OF _ run] i show fo: "fieldOffset s \<le> length v"
    by (simp add: row_closed_def)
  from run i fo show "readRow cfg v offset res =
      (length v,
       (if length v - fieldOffset s \<noteq> 0
        then result s @ [\<lparr>byteOffset = fieldOffset s, byteLength = length v - fieldOffset s\<rparr>]
        else result s),
       warnings s)"
    by (auto simp: readRow_def)
next
  assume nolb: "\<forall>k. offset \<le> k \<and> k < length v \<longrightarrow> v ! k \<noteq> linebreak cfg"
  obtain i st where run: "readRow_loop cfg v offset
      \<lparr>fieldOffset = offset, isInQuotes = False, result = res, warnings = []\<rparr> = (i, st)"
    by (cases "readRow_loop cfg v offset
      \<lparr>fieldOffset = offset, isInQuotes = False, result = res, warnings = []\<rparr>") auto
  show "fst (readRow cfg v offset res) = length v"
  proof (cases st)
    case (Return r s)
    with run readRow_loop_Return[of cfg v offset _ i r s] nolb show ?thesis by auto
  next
    case (Continue s)
    with run readRow_loop_Continue[of cfg v offset _ i s] assms show ?thesis
      by (auto simp: readRow_def)
  qed
next
  fix k
  assume k: "offset \<le> k \<and> k < length v \<and> v ! k = linebreak cfg \<and>
      linebreak cfg \<noteq> separator cfg \<and>
      (\<forall>j. offset \<le> j \<and> j < k \<longrightarrow> v ! j \<noteq> linebreak cfg) \<and>
      (\<forall>j. offset \<le> j \<and> j \<le> k \<longrightarrow> v ! j \<noteq> qualifier cfg)"
  then show "readRow cfg v offset res = (k + 1, res @ pieces cfg v offset k, [])"
    by (intro readRow_first_linebreak) simp_all
next
  assume "\<forall>j. offset \<le> j \<and> j < length v \<longrightarrow> v ! j \<noteq> linebreak cfg \<and> v ! j \<noteq> qualifier cfg"
  from readRow_no_linebreak[OF assms this]
  show "readRow cfg v offset res =
      (length v,
       res @ (if byteLength (last (pieces cfg v offset (length v))) = 0
              then butlast (pieces cfg v offset (length v))
              else pieces cfg v offset (length v)),
       [])" .
qed

text \<open>
  Witness for C9: the view \<^verbatim>\<open>a,b\n1,2\<close> read from offset 4 (no line-break ahead, trailing
  field \<^verbatim>\<open>2\<close>) and from offset 0 (the row ends at the first line-break, at index 3, and
  its fields are the two pieces \<^verbatim>\<open>a\<close> and \<^verbatim>\<open>b\<close>).
\<close>
theorem readRow_offset_and_trailing_field_witness:
  "(4::nat) \<le> length (''a,b'' @ [CHR 0x0A] @ ''1,2'') \<and>
   readRow_loop defaultConfig (''a,b'' @ [CHR 0x0A] @ ''1,2'') 4
       \<lparr>fieldOffset = 4, isInQuotes = False, result = [], warnings = []\<rparr>
     = (7, Continue \<lparr>fieldOffset = 6, isInQuotes = False,
            result = [\<lparr>byteOffset = 4, byteLength = 1\<rparr>], warnings = []\<rparr>) \<and>
   (''a,b'' @ [CHR 0x0A] @ ''1,2'') ! 4 \<noteq> linebreak defaultConfig \<and> (''a,b'' @ [CHR 0x0A] @ ''1,2'') ! 4 \<noteq> qualifier defaultConfig \<and>
   (''a,b'' @ [CHR 0x0A] @ ''1,2'') ! 5 \<noteq> linebreak defaultConfig \<and> (''a,b'' @ [CHR 0x0A] @ ''1,2'') ! 5 \<noteq> qualifier defaultConfig \<and>
   (''a,b'' @ [CHR 0x0A] @ ''1,2'') ! 6 \<noteq> linebreak defaultConfig \<and> (''a,b'' @ [CHR 0x0A] @ ''1,2'') ! 6 \<noteq> qualifier defaultConfig \<and>
   pieces defaultConfig (''a,b'' @ [CHR 0x0A] @ ''1,2'') 4 (length (''a,b'' @ [CHR 0x0A] @ ''1,2''))
     = [\<lparr>byteOffset = 4, byteLength = 1\<rparr>, \<lparr>byteOffset = 6, byteLength = 1\<rparr>] \<and>
   readRow defaultConfig (''a,b'' @ [CHR 0x0A] @ ''1,2'') 4 [] =
     (7, [\<lparr>byteOffset = 4, byteLength = 1\<rparr>, \<lparr>byteOffset = 6, byteLength = 1\<rparr>], []) \<and>
   (0::nat) \<le> length (''a,b'' @ [CHR 0x0A] @ ''1,2'') \<and>
   readRow_loop defaultConfig (''a,b'' @ [CHR 0x0A] @ ''1,2'') 0
       \<lparr>fieldOffset = 0, isInQuotes = False, result = [], warnings = []\<rparr>
     = (3, Return 4 \<lparr>fieldOffset = 2, isInQuotes = False,
            result = [\<lparr>byteOffset = 0, byteLength = 1\<rparr>, \<lparr>byteOffset = 2, byteLength = 1\<rparr>],
            warnings = []\<rparr>) \<and>
   (3::nat) < length (''a,b'' @ [CHR 0x0A] @ ''1,2'') \<and> (''a,b'' @ [CHR 0x0A] @ ''1,2'') ! 3 = linebreak defaultConfig \<and>
   linebreak defaultConfig \<noteq> separator defaultConfig \<and>
   (''a,b'' @ [CHR 0x0A] @ ''1,2'') ! 0 \<noteq> linebreak defaultConfig \<and> (''a,b'' @ [CHR 0x0A] @ ''1,2'') ! 1 \<noteq> linebreak defaultConfig \<and>
   (''a,b'' @ [CHR 0x0A] @ ''1,2'') ! 2 \<noteq> linebreak defaultConfig \<and>
   (''a,b'' @ [CHR 0x0A] @ ''1,2'') ! 0 \<noteq> qualifier defaultConfig \<and> (''a,b'' @ [CHR 0x0A] @ ''1,2'') ! 1 \<noteq> qualifier defaultConfig \<and>
   (''a,b'' @ [CHR 0x0A] @ ''1,2'') ! 2 \<noteq> qualifier defaultConfig \<and> (''a,b'' @ [CHR 0x0A] @ ''1,2'') ! 3 \<noteq> qualifier defaultConfig \<and>
   pieces defaultConfig (''a,b'' @ [CHR 0x0A] @ ''1,2'') 0 3
     = [\<lparr>byteOffset = 0, byteLength = 1\<rparr>, \<lparr>byteOffset = 2, byteLength = 1\<rparr>] \<and>
   readRow defaultConfig (''a,b'' @ [CHR 0x0A] @ ''1,2'') 0 [] =
     (3 + 1, [\<lparr>byteOffset = 0, byteLength = 1\<rparr>, \<lparr>byteOffset = 2, byteLength = 1\<rparr>], [])"
  using readRow_offset_and_trailing_field[of 4 "''a,b'' @ [CHR 0x0A] @ ''1,2''" defaultConfig "[]"]
    readRow_offset_and_trailing_field[of 0 "''a,b'' @ [CHR 0x0A] @ ''1,2''" defaultConfig "[]"]
  by (simp add: readRow_loop.simps readRow_step_def defaultConfig_def pieces_def separators_def
      upt_conv_Cons)

text \<open>
  Claim C2. The claim expects the view \<^verbatim>\<open>"x,y\n\<close> to give the row at the line-break, with
  quoting closed and the row reported as malformed. The code tests \<^verbatim>\<open>!isInQuotes\<close> before
  it enters the line-break branch, so the recovery inside that branch is never reached:
  the scan runs on to the end of the view, the single field covers all five bytes (the
  opening qualifier and the line-break included), 5 is returned and nothing is warned.
  With a second row behind it, that row is swallowed as well.
\<close>
theorem readRow_unterminated_quote:
  "readRow defaultConfig (CHR 0x22 # ''x,y'' @ [CHR 0x0A]) 0 [] =
     (5, [\<lparr>byteOffset = 0, byteLength = 5\<rparr>], []) \<and>
   readRow defaultConfig (CHR 0x22 # ''x,y'' @ [CHR 0x0A] @ ''1,2'' @ [CHR 0x0A]) 0 [] =
     (9, [\<lparr>byteOffset = 0, byteLength = 9\<rparr>], [])"
  by (simp add: readRow_def readRow_loop.simps readRow_step_def defaultConfig_def)

text \<open>No call of \<open>readRow\<close> prints the warning of the unterminated qualifier.\<close>
lemma readRow_step_no_unterminated:
  "UnterminatedQualifier \<notin> set (warnings s) \<Longrightarrow> readRow_step cfg v i s = st \<Longrightarrow>
   UnterminatedQualifier \<notin> set (warnings (case st of Continue s' \<Rightarrow> s' | Return r s' \<Rightarrow> s'))"
  by (auto simp: readRow_step_def Let_def split: if_splits)

lemma readRow_loop_no_unterminated:
  "UnterminatedQualifier \<notin> set (warnings s) \<Longrightarrow> readRow_loop cfg v i s = (j, st) \<Longrightarrow>
   UnterminatedQualifier \<notin> set (warnings (case st of Continue s' \<Rightarrow> s' | Return r s' \<Rightarrow> s'))"
proof (induction cfg v i s rule: readRow_loop.induct)
  case (1 cfg v i s)
  show ?case
  proof (cases "i < length v")
    case False
    with "1.prems" show ?thesis by (auto simp: readRow_loop.simps)
  next
    case True
    show ?thesis
    proof (cases "readRow_step cfg v i s")
      case (Continue s1)
      with True "1.prems" have run: "readRow_loop cfg v (i + 1) s1 = (j, st)"
        by (simp add: readRow_loop.simps)
      from readRow_step_no_unterminated[OF "1.prems"(1) Continue]
      have "UnterminatedQualifier \<notin> set (warnings s1)" by simp
      from "1.IH"[OF True Continue this run] show ?thesis .
    next
      case (Return r1 s1)
      with True "1.prems" have "st = Return r1 s1"
        by (simp_all add: readRow_loop.simps)
      with readRow_step_no_unterminated[OF "1.prems"(1) Return] show ?thesis by simp
    qed
  qed
qed

lemma readRow_never_reports_unterminated:
  "UnterminatedQualifier \<notin> set (snd (snd (readRow cfg v offset res)))"
proof -
  obtain j st where run: "readRow_loop cfg v offset
      \<lparr>fieldOffset = offset, isInQuotes = False, result = res, warnings = []\<rparr> = (j, st)"
    by (cases "readRow_loop cfg v offset
      \<lparr>fieldOffset = offset, isInQuotes = False, result = res, warnings = []\<rparr>") auto
  from readRow_loop_no_unterminated[OF _ run]
  have "UnterminatedQualifier \<notin> set (warnings (case st of Continue s' \<Rightarrow> s' | Return r s' \<Rightarrow> s'))"
    by simp
  with run show ?thesis
    by (cases st) (auto simp: readRow_def)
qed

section \<open>The fields of readRow are ranges of the view\<close>

lemma chained_snoc:
  "chained a (fs @ [f]) = (chained a fs \<and> byteOffset f = next_start a fs)"
proof (induction fs arbitrary: a)
  case Nil
  show ?case by (auto simp: next_start_def)
next
  case (Cons x xs)
  have "next_start a (x # xs) = next_start (byteOffset x + byteLength x + 1) xs"
    by (simp add: next_start_def)
  with Cons show ?case by simp
qed

lemma chained_ge: "chained a fs \<Longrightarrow> \<forall>f\<in>set fs. a \<le> byteOffset f"
proof (induction fs arbitrary: a)
  case Nil
  show ?case by simp
next
  case (Cons x xs)
  from Cons.prems have x: "byteOffset x = a" and "chained (a + byteLength x + 1) xs" by auto
  from Cons.IH[OF this(2)] x show ?case by auto
qed

lemma next_start_snoc: "next_start a (fs @ [f]) = byteOffset f + byteLength f + 1"
  by (simp add: next_start_def)

lemma bytes_of_range:
  assumes "byteOffset f + byteLength f \<le> length v"
  shows "bytes_of v f = map (\<lambda>n. v ! n) [byteOffset f..<byteOffset f + byteLength f]"
  using assms by (intro nth_equalityI) (auto simp: bytes_of_def)

text \<open>
  The state of a running scan at index \<open>i\<close>, \<open>new\<close> being the fields pushed so far: they
  are chained from the offset, each is followed by a separator byte before \<open>i\<close>, and the
  field start is behind the last of them.
\<close>
lemma readRow_step_tiles:
  assumes "tiles cfg v offset res i s new" "i < length v"
  shows "case readRow_step cfg v i s of
       Continue s' \<Rightarrow> \<exists>new'. tiles cfg v offset res (i + 1) s' new'
     | Return r s' \<Rightarrow> r = i + 1 \<and> v ! i = linebreak cfg \<and>
         result s' = res @ new @ [\<lparr>byteOffset = fieldOffset s, byteLength = i - fieldOffset s\<rparr>]"
proof -
  let ?f = "\<lparr>byteOffset = fieldOffset s, byteLength = i - fieldOffset s\<rparr>"
  from assms(1) have a: "result s = res @ new" "chained offset new"
      "fieldOffset s = next_start offset new" "fieldOffset s \<le> i"
      "\<forall>f\<in>set new. byteOffset f + byteLength f < i \<and> v ! (byteOffset f + byteLength f) = separator cfg"
    by (simp_all add: tiles_def list_all_iff)
  have "(\<exists>s'. readRow_step cfg v i s = Continue s' \<and> result s' = result s \<and> fieldOffset s' = fieldOffset s)
      \<or> (\<exists>s'. readRow_step cfg v i s = Continue s' \<and> result s' = result s @ [?f] \<and> fieldOffset s' = i + 1
            \<and> v ! i = separator cfg)
      \<or> (\<exists>r s'. readRow_step cfg v i s = Return r s' \<and> result s' = result s @ [?f] \<and> r = i + 1
            \<and> v ! i = linebreak cfg)"
    by (simp add: readRow_step_def Let_def)
  then consider (same) s' where "readRow_step cfg v i s = Continue s'" "result s' = result s" "fieldOffset s' = fieldOffset s"
    | (push) s' where "readRow_step cfg v i s = Continue s'" "result s' = result s @ [?f]" "fieldOffset s' = i + 1"
         "v ! i = separator cfg"
    | (ret) r s' where "readRow_step cfg v i s = Return r s'" "result s' = result s @ [?f]" "r = i + 1"
         "v ! i = linebreak cfg"
    by blast
  then show ?thesis
  proof cases
    case same
    have "tiles cfg v offset res (i + 1) s' new"
      using a same by (auto simp: tiles_def list_all_iff)
    with same show ?thesis by auto
  next
    case push
    have "tiles cfg v offset res (i + 1) s' (new @ [?f])"
      using a push by (auto simp: tiles_def list_all_iff chained_snoc next_start_snoc)
    with push show ?thesis by auto
  next
    case ret
    with a show ?thesis by simp
  qed
qed

lemma readRow_loop_tiles:
  assumes "tiles cfg v offset res i s new" "i \<le> length v" "readRow_loop cfg v i s = (j, st)"
  shows "case st of
       Continue s' \<Rightarrow> j = length v \<and> (\<exists>new'. tiles cfg v offset res (length v) s' new')
     | Return r s' \<Rightarrow> r = j + 1 \<and> j < length v \<and> v ! j = linebreak cfg \<and>
         (\<exists>s1 new'. tiles cfg v offset res j s1 new' \<and>
            result s' = res @ new' @ [\<lparr>byteOffset = fieldOffset s1, byteLength = j - fieldOffset s1\<rparr>])"
  using assms
proof (induction cfg v i s arbitrary: new rule: readRow_loop.induct)
  case (1 cfg v i s)
  show ?case
  proof (cases "i < length v")
    case False
    from False "1.prems"(3) have "j = i" "st = Continue s"
      by (simp_all add: readRow_loop.simps[of cfg v i s])
    with "1.prems" False show ?thesis by auto
  next
    case True
    note step = readRow_step_tiles[OF "1.prems"(1) True]
    show ?thesis
    proof (cases "readRow_step cfg v i s")
      case (Continue s1)
      with True "1.prems" have run: "readRow_loop cfg v (i + 1) s1 = (j, st)"
        by (simp add: readRow_loop.simps[of cfg v i s])
      from step Continue obtain new1 where "tiles cfg v offset res (i + 1) s1 new1" by auto
      from "1.IH"[OF True Continue this _ run] True show ?thesis by simp
    next
      case (Return r1 s1)
      with True "1.prems" have e: "j = i" "st = Return r1 s1"
        by (simp_all add: readRow_loop.simps[of cfg v i s])
      from step Return have "r1 = i + 1" "v ! i = linebreak cfg"
        "result s1 = res @ new @ [\<lparr>byteOffset = fieldOffset s, byteLength = i - fieldOffset s\<rparr>]"
        by simp_all
      with e True "1.prems"(1) show ?thesis by auto
    qed
  qed
qed

lemma readRow_tiles:
  assumes "offset \<le> length v"
  shows "\<exists>r new ws. readRow cfg v offset res = (r, res @ new, ws) \<and> chained offset new \<and>
       (\<forall>f\<in>set new. byteOffset f + byteLength f \<le> r \<and>
          (byteOffset f + byteLength f < r \<longrightarrow>
             v ! (byteOffset f + byteLength f) = separator cfg \<or>
             v ! (byteOffset f + byteLength f) = linebreak cfg)) \<and>
       r \<le> length v \<and>
       (if new = [] then r = offset
        else byteOffset (last new) + byteLength (last new) = r \<or>
             byteOffset (last new) + byteLength (last new) + 1 = r)"
proof -
  define s0 where "s0 = \<lparr>fieldOffset = offset, isInQuotes = False, result = res, warnings = []\<rparr>"
  have t0: "tiles cfg v offset res offset s0 []"
    by (simp add: tiles_def s0_def next_start_def)
  obtain j st where run: "readRow_loop cfg v offset s0 = (j, st)"
    by (cases "readRow_loop cfg v offset s0") auto
  note fin = readRow_loop_tiles[OF t0 assms run]
  show ?thesis
  proof (cases st)
    case (Return r s)
    with fin obtain s1 new1 where r: "r = j + 1" "j < length v" "v ! j = linebreak cfg"
        and t: "tiles cfg v offset res j s1 new1"
        and res: "result s = res @ new1 @ [\<lparr>byteOffset = fieldOffset s1, byteLength = j - fieldOffset s1\<rparr>]"
      by auto
    let ?f = "\<lparr>byteOffset = fieldOffset s1, byteLength = j - fieldOffset s1\<rparr>"
    from t have a: "chained offset new1" "fieldOffset s1 = next_start offset new1" "fieldOffset s1 \<le> j"
      "\<forall>f\<in>set new1. byteOffset f + byteLength f < j \<and> v ! (byteOffset f + byteLength f) = separator cfg"
      by (simp_all add: tiles_def list_all_iff)
    have "readRow cfg v offset res = (j + 1, res @ (new1 @ [?f]), warnings s)"
      unfolding readRow_def s0_def[symmetric] using run Return r res by simp
    moreover have "chained offset (new1 @ [?f])" using a by (simp add: chained_snoc)
    moreover have "\<forall>f\<in>set (new1 @ [?f]). byteOffset f + byteLength f \<le> j + 1 \<and>
          (byteOffset f + byteLength f < j + 1 \<longrightarrow>
             v ! (byteOffset f + byteLength f) = separator cfg \<or>
             v ! (byteOffset f + byteLength f) = linebreak cfg)"
      using a r by auto
    moreover have "j + 1 \<le> length v" using r by simp
    moreover have "if new1 @ [?f] = [] then j + 1 = offset
        else byteOffset (last (new1 @ [?f])) + byteLength (last (new1 @ [?f])) = j + 1 \<or>
             byteOffset (last (new1 @ [?f])) + byteLength (last (new1 @ [?f])) + 1 = j + 1"
      using a by simp
    ultimately show ?thesis by blast
  next
    case (Continue s)
    with fin obtain new1 where j: "j = length v" and t: "tiles cfg v offset res (length v) s new1"
      by auto
    from t have a: "result s = res @ new1" "chained offset new1"
      "fieldOffset s = next_start offset new1" "fieldOffset s \<le> length v"
      "\<forall>f\<in>set new1. byteOffset f + byteLength f < length v \<and> v ! (byteOffset f + byteLength f) = separator cfg"
      by (simp_all add: tiles_def list_all_iff)
    show ?thesis
    proof (cases "length v > fieldOffset s")
      case True
      let ?f = "\<lparr>byteOffset = fieldOffset s, byteLength = length v - fieldOffset s\<rparr>"
      have "readRow cfg v offset res = (length v, res @ (new1 @ [?f]), warnings s)"
        unfolding readRow_def s0_def[symmetric] using run Continue j True a by simp
      moreover have "chained offset (new1 @ [?f])" using a by (simp add: chained_snoc)
      moreover have "\<forall>f\<in>set (new1 @ [?f]). byteOffset f + byteLength f \<le> length v \<and>
          (byteOffset f + byteLength f < length v \<longrightarrow>
             v ! (byteOffset f + byteLength f) = separator cfg \<or>
             v ! (byteOffset f + byteLength f) = linebreak cfg)"
        using a by auto
      moreover have "if new1 @ [?f] = [] then length v = offset
        else byteOffset (last (new1 @ [?f])) + byteLength (last (new1 @ [?f])) = length v \<or>
             byteOffset (last (new1 @ [?f])) + byteLength (last (new1 @ [?f])) + 1 = length v"
        using a by simp
      moreover have "length v \<le> length v" by simp
      ultimately show ?thesis by blast
    next
      case False
      with a have fo: "fieldOffset s = length v" by simp
      have rr: "readRow cfg v offset res = (length v, res @ new1, warnings s)"
        unfolding readRow_def s0_def[symmetric] using run Continue j False a by simp
      have all: "\<forall>f\<in>set new1. byteOffset f + byteLength f \<le> length v \<and>
          (byteOffset f + byteLength f < length v \<longrightarrow>
             v ! (byteOffset f + byteLength f) = separator cfg \<or>
             v ! (byteOffset f + byteLength f) = linebreak cfg)"
        using a by auto
      have lastp: "if new1 = [] then length v = offset
        else byteOffset (last new1) + byteLength (last new1) = length v \<or>
             byteOffset (last new1) + byteLength (last new1) + 1 = length v"
        using a(3) fo by (simp add: next_start_def split: if_splits)
      from rr a(2) all lastp show ?thesis by blast
    qed
  qed
qed

lemma chained_cover:
  "chained a fs \<Longrightarrow> a \<le> n \<Longrightarrow> n < next_start a fs \<Longrightarrow>
   \<exists>f\<in>set fs. byteOffset f \<le> n \<and> n \<le> byteOffset f + byteLength f"
proof (induction fs arbitrary: a)
  case Nil
  then show ?case by (simp add: next_start_def)
next
  case (Cons x xs)
  from Cons.prems(1) have x: "byteOffset x = a" and ch: "chained (a + byteLength x + 1) xs" by auto
  show ?case
  proof (cases "n \<le> a + byteLength x")
    case True
    with x Cons.prems(2) show ?thesis by auto
  next
    case False
    then have ge: "a + byteLength x + 1 \<le> n" by simp
    have "xs \<noteq> []" using False Cons.prems(3) x by (auto simp: next_start_def)
    then have "next_start a (x # xs) = next_start (a + byteLength x + 1) xs"
      by (simp add: next_start_def)
    with Cons.prems(3) have "n < next_start (a + byteLength x + 1) xs" by simp
    from Cons.IH[OF ch ge this] show ?thesis by auto
  qed
qed

text \<open>
  Counterexample for C3: for the view \<^verbatim>\<open>"a""b"\<close> the value of the field pushed is not
  \<^verbatim>\<open>a"b\<close>.
\<close>
theorem doubled_quote_counterexample:
  "map (bytes_of ([CHR 0x22] @ ''a'' @ [CHR 0x22, CHR 0x22] @ ''b'' @ [CHR 0x22]))
       (fst (snd (readRow defaultConfig
          ([CHR 0x22] @ ''a'' @ [CHR 0x22, CHR 0x22] @ ''b'' @ [CHR 0x22]) 0 [])))
     \<noteq> [''a'' @ [CHR 0x22] @ ''b'']"
  by (simp add: readRow_def readRow_loop.simps readRow_step_def defaultConfig_def bytes_of_def)

text \<open>
  Claim C3, amended. \<open>readRow\<close> does not reduce a doubled quote byte. Called with an offset
  inside the view, it pushes behind the fields already in the collector only ranges of
  the view: the first starts at the offset, each next one starts one byte behind the end
  of the one before, every one ends inside the view, and the value of a field is the
  bytes of the view at the indices of its range, as they are. Every byte between the
  offset and the offset returned that is neither a separator nor a line-break byte lies
  in the range of one of these fields. So both bytes of a doubled quote, and the
  qualifiers, are in the output: the view \<^verbatim>\<open>"a""b"\<close> gives a single field whose range
  covers all six bytes.
\<close>
theorem doubled_quote_kept_raw:
  "(offset \<le> length v \<longrightarrow>
      (\<exists>r new ws. readRow cfg v offset res = (r, res @ new, ws) \<and> chained offset new \<and>
         (\<forall>f\<in>set new. offset \<le> byteOffset f \<and> byteOffset f + byteLength f \<le> length v \<and>
            bytes_of v f = map (\<lambda>n. v ! n) [byteOffset f..<byteOffset f + byteLength f]) \<and>
         (\<forall>n. offset \<le> n \<and> n < r \<and> v ! n \<noteq> separator cfg \<and> v ! n \<noteq> linebreak cfg \<longrightarrow>
            (\<exists>f\<in>set new. byteOffset f \<le> n \<and> n < byteOffset f + byteLength f)))) \<and>
   fst (snd (readRow defaultConfig
       ([CHR 0x22] @ ''a'' @ [CHR 0x22, CHR 0x22] @ ''b'' @ [CHR 0x22]) 0 []))
     = [\<lparr>byteOffset = 0, byteLength = 6\<rparr>] \<and>
   bytes_of ([CHR 0x22] @ ''a'' @ [CHR 0x22, CHR 0x22] @ ''b'' @ [CHR 0x22])
       \<lparr>byteOffset = 0, byteLength = 6\<rparr>
     = [CHR 0x22] @ ''a'' @ [CHR 0x22, CHR 0x22] @ ''b'' @ [CHR 0x22]"
proof (intro conjI impI)
  assume "offset \<le> length v"
  from readRow_tiles[OF this, of cfg res]
  obtain r new ws where n: "readRow cfg v offset res = (r, res @ new, ws)" "chained offset new"
      "\<forall>f\<in>set new. byteOffset f + byteLength f \<le> r \<and>
          (byteOffset f + byteLength f < r \<longrightarrow>
             v ! (byteOffset f + byteLength f) = separator cfg \<or>
             v ! (byteOffset f + byteLength f) = linebreak cfg)"
      "r \<le> length v"
      "if new = [] then r = offset
        else byteOffset (last new) + byteLength (last new) = r \<or>
             byteOffset (last new) + byteLength (last new) + 1 = r"
    by blast
  from n(3,4) have inside: "\<forall>f\<in>set new. byteOffset f + byteLength f \<le> length v" by auto
  from chained_ge[OF n(2)] inside bytes_of_range[of _ v]
  have ranges: "\<forall>f\<in>set new. offset \<le> byteOffset f \<and> byteOffset f + byteLength f \<le> length v \<and>
            bytes_of v f = map (\<lambda>n. v ! n) [byteOffset f..<byteOffset f + byteLength f]"
    by blast
  have cover: "\<forall>n. offset \<le> n \<and> n < r \<and> v ! n \<noteq> separator cfg \<and> v ! n \<noteq> linebreak cfg \<longrightarrow>
            (\<exists>f\<in>set new. byteOffset f \<le> n \<and> n < byteOffset f + byteLength f)"
  proof (intro allI impI)
    fix m
    assume m: "offset \<le> m \<and> m < r \<and> v ! m \<noteq> separator cfg \<and> v ! m \<noteq> linebreak cfg"
    with n(5) have ne: "new \<noteq> []" by auto
    with n(5) have "r \<le> next_start offset new" by (auto simp: next_start_def)
    with m have "m < next_start offset new" by simp
    from chained_cover[OF n(2) _ this] m
    obtain f where f: "f \<in> set new" "byteOffset f \<le> m" "m \<le> byteOffset f + byteLength f" by auto
    have "m \<noteq> byteOffset f + byteLength f"
    proof
      assume e: "m = byteOffset f + byteLength f"
      with m have "byteOffset f + byteLength f < r" by simp
      with n(3) f(1) e m show False by auto
    qed
    with f show "\<exists>f\<in>set new. byteOffset f \<le> m \<and> m < byteOffset f + byteLength f" by auto
  qed
  from n(1,2) ranges cover
  show "\<exists>r new ws. readRow cfg v offset res = (r, res @ new, ws) \<and> chained offset new \<and>
         (\<forall>f\<in>set new. offset \<le> byteOffset f \<and> byteOffset f + byteLength f \<le> length v \<and>
            bytes_of v f = map (\<lambda>n. v ! n) [byteOffset f..<byteOffset f + byteLength f]) \<and>
         (\<forall>n. offset \<le> n \<and> n < r \<and> v ! n \<noteq> separator cfg \<and> v ! n \<noteq> linebreak cfg \<longrightarrow>
            (\<exists>f\<in>set new. byteOffset f \<le> n \<and> n < byteOffset f + byteLength f))"
    by blast
next
  show "fst (snd (readRow defaultConfig ([CHR 0x22] @ ''a'' @ [CHR 0x22, CHR 0x22] @ ''b'' @ [CHR 0x22]) 0 []))
     = [\<lparr>byteOffset = 0, byteLength = 6\<rparr>]"
    by (simp add: readRow_def readRow_loop.simps readRow_step_def defaultConfig_def)
next
  show "bytes_of ([CHR 0x22] @ ''a'' @ [CHR 0x22, CHR 0x22] @ ''b'' @ [CHR 0x22]) \<lparr>byteOffset = 0, byteLength = 6\<rparr> = [CHR 0x22] @ ''a'' @ [CHR 0x22, CHR 0x22] @ ''b'' @ [CHR 0x22]"
    by (simp add: bytes_of_def)
qed

text \<open>
  Witness for C3: the view \<^verbatim>\<open>"a""b"\<close> read from offset 0 into an empty collector; the one
  field pushed starts at 0, its value is the six bytes at the indices 0 to 5, and the two
  bytes of the doubled quote, at the indices 2 and 3, are in its range.
\<close>
theorem doubled_quote_kept_raw_witness:
  "(0::nat) \<le> length ([CHR 0x22] @ ''a'' @ [CHR 0x22, CHR 0x22] @ ''b'' @ [CHR 0x22]) \<and>
   fst (readRow defaultConfig ([CHR 0x22] @ ''a'' @ [CHR 0x22, CHR 0x22] @ ''b'' @ [CHR 0x22]) 0 []) = 6 \<and>
   fst (snd (readRow defaultConfig ([CHR 0x22] @ ''a'' @ [CHR 0x22, CHR 0x22] @ ''b'' @ [CHR 0x22]) 0 []))
     = [] @ [\<lparr>byteOffset = 0, byteLength = 6\<rparr>] \<and>
   chained 0 [\<lparr>byteOffset = 0, byteLength = 6\<rparr>] \<and>
   byteOffset \<lparr>byteOffset = 0, byteLength = 6\<rparr> + byteLength \<lparr>byteOffset = 0, byteLength = 6\<rparr>
     \<le> length ([CHR 0x22] @ ''a'' @ [CHR 0x22, CHR 0x22] @ ''b'' @ [CHR 0x22]) \<and>
   bytes_of ([CHR 0x22] @ ''a'' @ [CHR 0x22, CHR 0x22] @ ''b'' @ [CHR 0x22]) \<lparr>byteOffset = 0, byteLength = 6\<rparr>
     = map (\<lambda>n. ([CHR 0x22] @ ''a'' @ [CHR 0x22, CHR 0x22] @ ''b'' @ [CHR 0x22]) ! n) [0..<0 + 6] \<and>
   (2::nat) < 6 \<and> ([CHR 0x22] @ ''a'' @ [CHR 0x22, CHR 0x22] @ ''b'' @ [CHR 0x22]) ! 2 = qualifier defaultConfig \<and>
   ([CHR 0x22] @ ''a'' @ [CHR 0x22, CHR 0x22] @ ''b'' @ [CHR 0x22]) ! 2 \<noteq> separator defaultConfig \<and> ([CHR 0x22] @ ''a'' @ [CHR 0x22, CHR 0x22] @ ''b'' @ [CHR 0x22]) ! 2 \<noteq> linebreak defaultConfig \<and>
   (3::nat) < 6 \<and> ([CHR 0x22] @ ''a'' @ [CHR 0x22, CHR 0x22] @ ''b'' @ [CHR 0x22]) ! 3 = qualifier defaultConfig \<and>
   ([CHR 0x22] @ ''a'' @ [CHR 0x22, CHR 0x22] @ ''b'' @ [CHR 0x22]) ! 3 \<noteq> separator defaultConfig \<and> ([CHR 0x22] @ ''a'' @ [CHR 0x22, CHR 0x22] @ ''b'' @ [CHR 0x22]) ! 3 \<noteq> linebreak defaultConfig \<and>
   byteOffset \<lparr>byteOffset = 0, byteLength = 6\<rparr> \<le> 2 \<and>
   3 < byteOffset \<lparr>byteOffset = 0, byteLength = 6\<rparr> + byteLength \<lparr>byteOffset = 0, byteLength = 6\<rparr>"
  using doubled_quote_kept_raw[of 0 "[CHR 0x22] @ ''a'' @ [CHR 0x22, CHR 0x22] @ ''b'' @ [CHR 0x22]" defaultConfig "[]"]
  by (simp add: readRow_def readRow_loop.simps readRow_step_def defaultConfig_def bytes_of_def upt_rec)

section \<open>Properties of readHeader\<close>

lemma replace_rx_literal:
  "rx_literal q \<Longrightarrow> replace_rx q s =
     (if 3 \<le> length s \<and> hd s = q \<and> last s = q \<and> \<not> list_ex lineTerminator (butlast (tl s))
      then butlast (tl s) else s)"
  by (auto simp: rx_literal_def replace_rx_def)

lemma rx_literal_valid: "rx_literal q \<Longrightarrow> \<not> rx_invalid q"
  by (auto simp: rx_literal_def rx_invalid_def)

lemma replace_rx_match:
  "rx_literal q \<Longrightarrow> X \<noteq> [] \<Longrightarrow> \<forall>c\<in>set X. \<not> lineTerminator c \<Longrightarrow> replace_rx q (q # X @ [q]) = X"
  by (cases X) (simp_all add: replace_rx_literal list_ex_iff butlast_append)

lemma enclosed_shape:
  assumes "3 \<le> length t"
  shows "t = hd t # butlast (tl t) @ [last t] \<and> butlast (tl t) \<noteq> []"
proof -
  from assms obtain x xs where t: "t = x # xs" by (cases t) auto
  with assms have xs: "xs \<noteq> []" "2 \<le> length xs" by auto
  then have "butlast xs \<noteq> []" by (cases xs) auto
  with t xs show ?thesis by simp
qed

lemma replace_rx_nomatch:
  assumes "rx_literal q"
    and "\<not> (\<exists>X. X \<noteq> [] \<and> (\<forall>c\<in>set X. \<not> lineTerminator c) \<and> t = q # X @ [q])"
  shows "replace_rx q t = t"
proof (rule ccontr)
  assume neq: "replace_rx q t \<noteq> t"
  then have c: "3 \<le> length t" "hd t = q" "last t = q"
      "\<not> list_ex lineTerminator (butlast (tl t))"
    by (auto simp: replace_rx_literal[OF assms(1)] split: if_splits)
  from enclosed_shape[OF c(1)] c
  have "butlast (tl t) \<noteq> [] \<and> (\<forall>c\<in>set (butlast (tl t)). \<not> lineTerminator c)
      \<and> t = q # butlast (tl t) @ [q]"
    by (simp add: list_ex_iff)
  with assms(2) show False by blast
qed

lemma header_loop_Inr:
  "\<forall>i\<in>set idx. body i = Inr (g i) \<Longrightarrow> header_loop body idx h = Inr (h @ map g idx)"
  by (induction idx arbitrary: h) simp_all

lemma header_loop_Inl:
  "\<forall>i\<in>set idx. body i = Inl e \<or> (\<exists>c. body i = Inr c) \<Longrightarrow> \<exists>i\<in>set idx. body i = Inl e \<Longrightarrow>
   header_loop body idx h = Inl e"
proof (induction idx arbitrary: h)
  case Nil
  then show ?case by simp
next
  case (Cons i rest)
  show ?case
  proof (cases "body i")
    case (Inl e')
    with Cons.prems(1) show ?thesis by auto
  next
    case (Inr c)
    with Cons.prems have "\<exists>i\<in>set rest. body i = Inl e" by auto
    with Cons.IH[of "h @ [c]"] Cons.prems(1) Inr show ?thesis by simp
  qed
qed

lemma readHeader_unfold:
  assumes "readRow cfg (take (min (maxRowSize cfg) (length file)) file) 0 [] = (off, cols, w)"
    and "\<not> rx_invalid (qualifier cfg)"
    and "\<forall>c\<in>set cols. byteLength c \<le> maxArgs"
  shows "readHeader maxArgs cfg file =
     Inr (map (\<lambda>i. \<lparr>name = (if firstRowHeader cfg
                             then replace_rx (qualifier cfg)
                               (trim (bytes_of (take (min (maxRowSize cfg) (length file)) file) (cols ! i)))
                             else ''Column'' @ string_of_nat i),
                    minLength = Num MAX_SAFE_INTEGER, maxLength = Num MIN_SAFE_INTEGER,
                    emptyCount = Num 0, stringCount = Num 0, intCount = Num 0,
                    floatCount = Num 0\<rparr>) [0..<length cols],
          if firstRowHeader cfg then off else 0)"
proof -
  define buffer where "buffer = take (min (maxRowSize cfg) (length file)) file"
  define g where "g = (\<lambda>i. \<lparr>name = (if firstRowHeader cfg
                             then replace_rx (qualifier cfg) (trim (bytes_of buffer (cols ! i)))
                             else ''Column'' @ string_of_nat i),
                    minLength = Num MAX_SAFE_INTEGER, maxLength = Num MIN_SAFE_INTEGER,
                    emptyCount = Num 0, stringCount = Num 0, intCount = Num 0,
                    floatCount = Num 0\<rparr>)"
  have "\<forall>i\<in>set [0..<length cols]. new_ColumnStat maxArgs cfg buffer cols i = Inr (g i)"
    using assms(3) by (auto simp: new_ColumnStat_def fromCharCode_def Let_def g_def not_less)
  from header_loop_Inr[OF this, of "[]"]
  have "header_loop (new_ColumnStat maxArgs cfg buffer cols) [0..<length cols] [] =
      Inr (map g [0..<length cols])" by simp
  with assms(1,2) show ?thesis
    unfolding readHeader_def buffer_def[symmetric] g_def by (simp add: Let_def)
qed

text \<open>A qualifier that makes no pattern: nothing is returned, whatever the file is.\<close>
lemma readHeader_SyntaxError:
  "rx_invalid (qualifier cfg) \<Longrightarrow> readHeader maxArgs cfg file = Inl SyntaxError"
  by (simp add: readHeader_def Let_def split: prod.splits)

text \<open>A field with more bytes than the engine takes as arguments: nothing is returned.\<close>
lemma readHeader_RangeError:
  assumes "readRow cfg (take (min (maxRowSize cfg) (length file)) file) 0 [] = (off, cols, w)"
    and "\<not> rx_invalid (qualifier cfg)"
    and "\<exists>c\<in>set cols. maxArgs < byteLength c"
  shows "readHeader maxArgs cfg file = Inl RangeError"
proof -
  define buffer where "buffer = take (min (maxRowSize cfg) (length file)) file"
  have a: "\<forall>i\<in>set [0..<length cols]. new_ColumnStat maxArgs cfg buffer cols i = Inl RangeError
      \<or> (\<exists>c. new_ColumnStat maxArgs cfg buffer cols i = Inr c)"
    by (simp add: new_ColumnStat_def fromCharCode_def Let_def)
  from assms(3) obtain i where "i < length cols" "maxArgs < byteLength (cols ! i)"
    by (auto simp: in_set_conv_nth)
  then have b: "\<exists>i\<in>set [0..<length cols]. new_ColumnStat maxArgs cfg buffer cols i = Inl RangeError"
    by (auto simp: new_ColumnStat_def fromCharCode_def intro!: bexI[of _ i])
  from header_loop_Inl[OF a b, of "[]"] assms(1,2) show ?thesis
    unfolding readHeader_def buffer_def[symmetric] by (simp add: Let_def)
qed

lemma readRow_step_take:
  assumes "i + 1 < m"
  shows "readRow_step cfg (take m v) i s = readRow_step cfg v i s"
proof -
  from assms have a: "take m v ! i = v ! i" by simp
  from assms have b: "(i + 1 < length (take m v) \<and> take m v ! (i + 1) = qualifier cfg)
      = (i + 1 < length v \<and> v ! (i + 1) = qualifier cfg)" by auto
  show ?thesis
    unfolding readRow_step_def a by (simp only: b conj_assoc)
qed

lemma readRow_step_take_Return:
  "i < m \<Longrightarrow> readRow_step cfg v i s = Return r s' \<Longrightarrow> readRow_step cfg (take m v) i s = Return r s'"
  by (auto simp: readRow_step_def Let_def split: if_splits)

lemma readRow_loop_take:
  assumes "readRow_loop cfg v i s = (j, Return r s')" "j < m"
  shows "readRow_loop cfg (take m v) i s = (j, Return r s')"
  using assms
proof (induction cfg v i s rule: readRow_loop.induct)
  case (1 cfg v i s)
  from readRow_loop_Return[OF "1.prems"(1)] have ij: "i \<le> j" "j < length v" by simp_all
  then have iv: "i < length v" by simp
  from ij "1.prems"(2) have it: "i < length (take m v)" by simp
  show ?case
  proof (cases "readRow_step cfg v i s")
    case (Continue s1)
    with iv "1.prems" have run: "readRow_loop cfg v (i + 1) s1 = (j, Return r s')"
      by (simp add: readRow_loop.simps[of cfg v i s])
    from readRow_loop_Return[OF run] "1.prems"(2) have "i + 1 < m" by simp
    from readRow_step_take[OF this] Continue
    have st: "readRow_step cfg (take m v) i s = Continue s1" by simp
    from "1.IH"[OF iv Continue run "1.prems"(2)] st it show ?thesis
      by (simp add: readRow_loop.simps[of cfg "take m v" i s])
  next
    case (Return r1 s1)
    with iv "1.prems" have e: "j = i" "r1 = r" "s1 = s'"
      by (simp_all add: readRow_loop.simps[of cfg v i s])
    from readRow_step_take_Return[OF _ Return, of m] e "1.prems"(2)
    have "readRow_step cfg (take m v) i s = Return r s'" by simp
    with it e show ?thesis
      by (simp add: readRow_loop.simps[of cfg "take m v" i s])
  qed
qed

lemma readRow_take:
  assumes "readRow_loop cfg v offset
       \<lparr>fieldOffset = offset, isInQuotes = False, result = res, warnings = []\<rparr> = (j, Return r s')"
     "j < m"
  shows "readRow cfg (take m v) offset res = readRow cfg v offset res"
  using readRow_loop_take[OF assms] assms(1) by (simp add: readRow_def)

text \<open>
  Claim C10, amended. For a qualifier that is a literal character of a regular expression
  and fields that are not longer than the number of arguments the engine takes in one
  call, \<open>readHeader\<close> returns, and makes one ColumnStat for each field that \<open>readRow\<close> reads
  from the first \<open>min maxRowSize size\<close> bytes of the file, with the four counts 0,
  \<open>minLength\<close> \<open>2^53 - 1\<close> and \<open>maxLength\<close> \<open>-(2^53 - 1)\<close>. Without \<open>firstRowHeader\<close> the
  names are \<^verbatim>\<open>Column\<close> followed by the decimal index and the offset is 0. With
  \<open>firstRowHeader\<close> the offset is the one \<open>readRow\<close> returned for these bytes, and the name
  is the trimmed value, with the surrounding pair of qualifiers stripped when the trimmed
  value is a qualifier, one or more characters none of which is a line terminator, and a
  qualifier; any other trimmed value is kept as it is. These fields and this offset are
  those of the first row of the whole file when the file is not longer than \<open>maxRowSize\<close>,
  or when \<open>readRow\<close> on the whole file ends the first row at a line-break byte among the
  first \<open>maxRowSize\<close> bytes.
\<close>
theorem readHeader_columns:
  assumes "readRow cfg (take (min (maxRowSize cfg) (length file)) file) 0 [] = (off, cols, w)"
    and "rx_literal (qualifier cfg)"
    and "\<forall>c\<in>set cols. byteLength c \<le> maxArgs"
  shows "(\<exists>header. readHeader maxArgs cfg file = Inr (header, if firstRowHeader cfg then off else 0) \<and>
    length header = length cols \<and>
    (\<forall>h\<in>set header. emptyCount h = Num 0 \<and> stringCount h = Num 0 \<and> intCount h = Num 0 \<and>
        floatCount h = Num 0 \<and> minLength h = Num (2 ^ 53 - 1) \<and> maxLength h = Num (- (2 ^ 53 - 1))) \<and>
    (\<not> firstRowHeader cfg \<longrightarrow>
        (\<forall>i<length header. name (header ! i) = ''Column'' @ string_of_nat i)) \<and>
    (firstRowHeader cfg \<longrightarrow>
        (\<forall>i<length header. \<forall>X.
           (X \<noteq> [] \<and> (\<forall>c\<in>set X. \<not> lineTerminator c) \<and>
            trim (bytes_of (take (min (maxRowSize cfg) (length file)) file) (cols ! i))
              = qualifier cfg # X @ [qualifier cfg]
            \<longrightarrow> name (header ! i) = X)) \<and>
        (\<forall>i<length header.
           \<not> (\<exists>X. X \<noteq> [] \<and> (\<forall>c\<in>set X. \<not> lineTerminator c) \<and>
              trim (bytes_of (take (min (maxRowSize cfg) (length file)) file) (cols ! i))
                = qualifier cfg # X @ [qualifier cfg])
            \<longrightarrow> name (header ! i)
                = trim (bytes_of (take (min (maxRowSize cfg) (length file)) file) (cols ! i))))) \<and>
    (length file \<le> maxRowSize cfg \<or>
     (\<exists>i r s. readRow_loop cfg file 0
          \<lparr>fieldOffset = 0, isInQuotes = False, result = [], warnings = []\<rparr> = (i, Return r s) \<and>
        i < maxRowSize cfg)
     \<longrightarrow> readRow cfg file 0 [] = (off, cols, w))"
proof (intro conjI impI)
  define buffer where "buffer = take (min (maxRowSize cfg) (length file)) file"
  define header where "header = map (\<lambda>i. \<lparr>name = (if firstRowHeader cfg
                             then replace_rx (qualifier cfg) (trim (bytes_of buffer (cols ! i)))
                             else ''Column'' @ string_of_nat i),
                    minLength = Num MAX_SAFE_INTEGER, maxLength = Num MIN_SAFE_INTEGER,
                    emptyCount = Num 0, stringCount = Num 0, intCount = Num 0,
                    floatCount = Num 0\<rparr>) [0..<length cols]"
  have rh: "readHeader maxArgs cfg file = Inr (header, if firstRowHeader cfg then off else 0)"
    using readHeader_unfold[OF assms(1) rx_literal_valid[OF assms(2)] assms(3)]
    by (simp add: header_def buffer_def)
  have len: "length header = length cols" by (simp add: header_def)
  have stats: "\<forall>h\<in>set header. emptyCount h = Num 0 \<and> stringCount h = Num 0 \<and> intCount h = Num 0 \<and>
        floatCount h = Num 0 \<and> minLength h = Num (2 ^ 53 - 1) \<and> maxLength h = Num (- (2 ^ 53 - 1))"
    by (auto simp: header_def MAX_SAFE_INTEGER_def MIN_SAFE_INTEGER_def)
  have nm: "\<And>i. i < length cols \<Longrightarrow> name (header ! i) =
      (if firstRowHeader cfg then replace_rx (qualifier cfg) (trim (bytes_of buffer (cols ! i)))
       else ''Column'' @ string_of_nat i)"
    by (simp add: header_def)
  have plain: "\<not> firstRowHeader cfg \<longrightarrow>
        (\<forall>i<length header. name (header ! i) = ''Column'' @ string_of_nat i)"
    using nm len by simp
  have strip: "\<forall>i<length header. \<forall>X.
           (X \<noteq> [] \<and> (\<forall>c\<in>set X. \<not> lineTerminator c) \<and>
            trim (bytes_of buffer (cols ! i)) = qualifier cfg # X @ [qualifier cfg]
            \<longrightarrow> name (header ! i) = X)" if "firstRowHeader cfg"
    using nm len that replace_rx_match[OF assms(2)] by simp
  have keep: "\<forall>i<length header.
           \<not> (\<exists>X. X \<noteq> [] \<and> (\<forall>c\<in>set X. \<not> lineTerminator c) \<and>
              trim (bytes_of buffer (cols ! i)) = qualifier cfg # X @ [qualifier cfg])
            \<longrightarrow> name (header ! i) = trim (bytes_of buffer (cols ! i))" if "firstRowHeader cfg"
    using nm len that replace_rx_nomatch[OF assms(2)] by simp
  show "\<exists>header. readHeader maxArgs cfg file = Inr (header, if firstRowHeader cfg then off else 0) \<and>
    length header = length cols \<and>
    (\<forall>h\<in>set header. emptyCount h = Num 0 \<and> stringCount h = Num 0 \<and> intCount h = Num 0 \<and>
        floatCount h = Num 0 \<and> minLength h = Num (2 ^ 53 - 1) \<and> maxLength h = Num (- (2 ^ 53 - 1))) \<and>
    (\<not> firstRowHeader cfg \<longrightarrow>
        (\<forall>i<length header. name (header ! i) = ''Column'' @ string_of_nat i)) \<and>
    (firstRowHeader cfg \<longrightarrow>
        (\<forall>i<length header. \<forall>X.
           (X \<noteq> [] \<and> (\<forall>c\<in>set X. \<not> lineTerminator c) \<and>
            trim (bytes_of (take (min (maxRowSize cfg) (length file)) file) (cols ! i))
              = qualifier cfg # X @ [qualifier cfg]
            \<longrightarrow> name (header ! i) = X)) \<and>
        (\<forall>i<length header.
           \<not> (\<exists>X. X \<noteq> [] \<and> (\<forall>c\<in>set X. \<not> lineTerminator c) \<and>
              trim (bytes_of (take (min (maxRowSize cfg) (length file)) file) (cols ! i))
                = qualifier cfg # X @ [qualifier cfg])
            \<longrightarrow> name (header ! i)
                = trim (bytes_of (take (min (maxRowSize cfg) (length file)) file) (cols ! i))))"
    unfolding buffer_def[symmetric]
    apply (rule exI[of _ header])
    apply (intro conjI)
        apply (rule rh)
       apply (rule len)
      apply (rule stats)
     apply (rule plain)
    apply (rule impI)
    apply (rule conjI)
     apply (erule strip)
    apply (erule keep)
    done
next
  assume a: "length file \<le> maxRowSize cfg \<or>
     (\<exists>i r s. readRow_loop cfg file 0
          \<lparr>fieldOffset = 0, isInQuotes = False, result = [], warnings = []\<rparr> = (i, Return r s) \<and>
        i < maxRowSize cfg)"
  show "readRow cfg file 0 [] = (off, cols, w)"
  proof (cases "length file \<le> maxRowSize cfg")
    case True
    with assms(1) show ?thesis by (simp add: min_def)
  next
    case False
    with a obtain i r s where run: "readRow_loop cfg file 0
          \<lparr>fieldOffset = 0, isInQuotes = False, result = [], warnings = []\<rparr> = (i, Return r s)"
        and i: "i < maxRowSize cfg" by blast
    from False have "min (maxRowSize cfg) (length file) = maxRowSize cfg" by simp
    with readRow_take[OF run i] assms(1) show ?thesis by simp
  qed
qed

text \<open>
  Counterexample for C10: the first row \<^verbatim>\<open>""\<close> (an empty quoted value), where stripping
  the surrounding pair of qualifiers gives the empty name and the code keeps both
  qualifiers; and the file \<^verbatim>\<open>abc\nd\<close> read with \<open>maxRowSize\<close> 2, where the first row is
  \<^verbatim>\<open>abc\<close> and ends at offset 4, and the code makes the name \<^verbatim>\<open>ab\<close> and returns 2.
\<close>
theorem readHeader_counterexample:
  "firstRowHeader defaultConfig \<and>
   readHeader 65536 defaultConfig [CHR 0x22, CHR 0x22, CHR 0x0A]
     = Inr ([\<lparr>name = [CHR 0x22, CHR 0x22], minLength = Num (2 ^ 53 - 1), maxLength = Num (- (2 ^ 53 - 1)), emptyCount = Num 0, stringCount = Num 0, intCount = Num 0, floatCount = Num 0\<rparr>], 3) \<and>
   map (\<lambda>c. spec_cleanValue (qualifier defaultConfig) (bytes_of [CHR 0x22, CHR 0x22, CHR 0x0A] c))
       (fst (snd (readRow defaultConfig [CHR 0x22, CHR 0x22, CHR 0x0A] 0 []))) = [[]] \<and>
   readHeader 65536 (defaultConfig\<lparr>maxRowSize := 2\<rparr>) (''abc'' @ [CHR 0x0A] @ ''d'')
     = Inr ([\<lparr>name = ''ab'', minLength = Num (2 ^ 53 - 1), maxLength = Num (- (2 ^ 53 - 1)), emptyCount = Num 0, stringCount = Num 0, intCount = Num 0, floatCount = Num 0\<rparr>], 2) \<and>
   readRow (defaultConfig\<lparr>maxRowSize := 2\<rparr>) (''abc'' @ [CHR 0x0A] @ ''d'') 0 []
     = (4, [\<lparr>byteOffset = 0, byteLength = 3\<rparr>], [])"
  by (simp add: readHeader_def readRow_def readRow_loop.simps readRow_step_def defaultConfig_def
      new_ColumnStat_def fromCharCode_def rx_invalid_def spec_cleanValue_def bytes_of_def trim_def
      whiteSpace_def replace_rx_def lineTerminator_def sizeOf1KB_def Let_def
      MAX_SAFE_INTEGER_def MIN_SAFE_INTEGER_def)

text \<open>Two files read by \<open>readHeader\<close>, one with a header row and one without.\<close>
lemma string_of_nat_digit: "n < 10 \<Longrightarrow> string_of_nat n = [''0123456789'' ! n]"
  by (simp add: string_of_nat.simps)

lemma header_file_row:
  "readRow defaultConfig (take (min (maxRowSize defaultConfig)
        (length ('' a ,'' @ [CHR 0x22] @ ''b c'' @ [CHR 0x22] @ '','' @ [CHR 0x22, CHR 0x22, CHR 0x0A] @ ''1,2'')))
        ('' a ,'' @ [CHR 0x22] @ ''b c'' @ [CHR 0x22] @ '','' @ [CHR 0x22, CHR 0x22, CHR 0x0A] @ ''1,2'')) 0 []
     = (13, [\<lparr>byteOffset = 0, byteLength = 3\<rparr>, \<lparr>byteOffset = 4, byteLength = 5\<rparr>,
             \<lparr>byteOffset = 10, byteLength = 2\<rparr>], [])"
  by (simp add: readRow_def readRow_loop.simps readRow_step_def defaultConfig_def sizeOf1KB_def)

lemma header_file_names:
  "readHeader 65536 defaultConfig ('' a ,'' @ [CHR 0x22] @ ''b c'' @ [CHR 0x22] @ '','' @ [CHR 0x22, CHR 0x22, CHR 0x0A] @ ''1,2'')
     = Inr ([\<lparr>name = ''a'', minLength = Num (2 ^ 53 - 1), maxLength = Num (- (2 ^ 53 - 1)), emptyCount = Num 0, stringCount = Num 0, intCount = Num 0, floatCount = Num 0\<rparr>,
             \<lparr>name = ''b c'', minLength = Num (2 ^ 53 - 1), maxLength = Num (- (2 ^ 53 - 1)), emptyCount = Num 0, stringCount = Num 0, intCount = Num 0, floatCount = Num 0\<rparr>,
             \<lparr>name = [CHR 0x22, CHR 0x22], minLength = Num (2 ^ 53 - 1), maxLength = Num (- (2 ^ 53 - 1)), emptyCount = Num 0, stringCount = Num 0, intCount = Num 0, floatCount = Num 0\<rparr>], 13)"
  using readHeader_unfold[OF header_file_row, of 65536]
  by (simp add: defaultConfig_def rx_invalid_def bytes_of_def trim_def whiteSpace_def
      replace_rx_def lineTerminator_def sizeOf1KB_def MAX_SAFE_INTEGER_def MIN_SAFE_INTEGER_def)

lemma plain_file_row:
  "readRow (defaultConfig\<lparr>firstRowHeader := False\<rparr>)
      (take (min (maxRowSize (defaultConfig\<lparr>firstRowHeader := False\<rparr>)) (length ''x,y'')) ''x,y'') 0 []
     = (3, [\<lparr>byteOffset = 0, byteLength = 1\<rparr>, \<lparr>byteOffset = 2, byteLength = 1\<rparr>], [])"
  by (simp add: readRow_def readRow_loop.simps readRow_step_def defaultConfig_def sizeOf1KB_def)

lemma plain_file_names:
  "readHeader 65536 (defaultConfig\<lparr>firstRowHeader := False\<rparr>) ''x,y''
     = Inr ([\<lparr>name = ''Column0'', minLength = Num (2 ^ 53 - 1), maxLength = Num (- (2 ^ 53 - 1)), emptyCount = Num 0, stringCount = Num 0, intCount = Num 0, floatCount = Num 0\<rparr>,
             \<lparr>name = ''Column1'', minLength = Num (2 ^ 53 - 1), maxLength = Num (- (2 ^ 53 - 1)), emptyCount = Num 0, stringCount = Num 0, intCount = Num 0, floatCount = Num 0\<rparr>], 0)"
  using readHeader_unfold[OF plain_file_row, of 65536]
  by (simp add: defaultConfig_def rx_invalid_def string_of_nat_digit
      MAX_SAFE_INTEGER_def MIN_SAFE_INTEGER_def)

text \<open>
  Witness for C10: the file \<^verbatim>\<open> a ,"b c",""\n1,2\<close> with a header row, and the file
  \<^verbatim>\<open>x,y\<close> without, on an engine that takes 65536 arguments.
\<close>
theorem readHeader_columns_witness:
  "readRow defaultConfig (take (min (maxRowSize defaultConfig)
        (length ('' a ,'' @ [CHR 0x22] @ ''b c'' @ [CHR 0x22] @ '','' @ [CHR 0x22, CHR 0x22, CHR 0x0A] @ ''1,2'')))
        ('' a ,'' @ [CHR 0x22] @ ''b c'' @ [CHR 0x22] @ '','' @ [CHR 0x22, CHR 0x22, CHR 0x0A] @ ''1,2'')) 0 []
     = (13, [\<lparr>byteOffset = 0, byteLength = 3\<rparr>, \<lparr>byteOffset = 4, byteLength = 5\<rparr>,
             \<lparr>byteOffset = 10, byteLength = 2\<rparr>], []) \<and>
   rx_literal (qualifier defaultConfig) \<and>
   (3::nat) \<le> 65536 \<and> (5::nat) \<le> 65536 \<and> (2::nat) \<le> 65536 \<and>
   firstRowHeader defaultConfig \<and>
   readHeader 65536 defaultConfig ('' a ,'' @ [CHR 0x22] @ ''b c'' @ [CHR 0x22] @ '','' @ [CHR 0x22, CHR 0x22, CHR 0x0A] @ ''1,2'')
     = Inr ([\<lparr>name = ''a'', minLength = Num (2 ^ 53 - 1), maxLength = Num (- (2 ^ 53 - 1)), emptyCount = Num 0, stringCount = Num 0, intCount = Num 0, floatCount = Num 0\<rparr>,
             \<lparr>name = ''b c'', minLength = Num (2 ^ 53 - 1), maxLength = Num (- (2 ^ 53 - 1)), emptyCount = Num 0, stringCount = Num 0, intCount = Num 0, floatCount = Num 0\<rparr>,
             \<lparr>name = [CHR 0x22, CHR 0x22], minLength = Num (2 ^ 53 - 1), maxLength = Num (- (2 ^ 53 - 1)), emptyCount = Num 0, stringCount = Num 0, intCount = Num 0, floatCount = Num 0\<rparr>], 13) \<and>
   length ('' a ,'' @ [CHR 0x22] @ ''b c'' @ [CHR 0x22] @ '','' @ [CHR 0x22, CHR 0x22, CHR 0x0A] @ ''1,2'') \<le> maxRowSize defaultConfig \<and>
   readRow defaultConfig ('' a ,'' @ [CHR 0x22] @ ''b c'' @ [CHR 0x22] @ '','' @ [CHR 0x22, CHR 0x22, CHR 0x0A] @ ''1,2'') 0 []
     = (13, [\<lparr>byteOffset = 0, byteLength = 3\<rparr>, \<lparr>byteOffset = 4, byteLength = 5\<rparr>,
             \<lparr>byteOffset = 10, byteLength = 2\<rparr>], []) \<and>
   rx_literal (qualifier (defaultConfig\<lparr>firstRowHeader := False\<rparr>)) \<and>
   (1::nat) \<le> 65536 \<and>
   \<not> firstRowHeader (defaultConfig\<lparr>firstRowHeader := False\<rparr>) \<and>
   readHeader 65536 (defaultConfig\<lparr>firstRowHeader := False\<rparr>) ''x,y''
     = Inr ([\<lparr>name = ''Column0'', minLength = Num (2 ^ 53 - 1), maxLength = Num (- (2 ^ 53 - 1)), emptyCount = Num 0, stringCount = Num 0, intCount = Num 0, floatCount = Num 0\<rparr>,
             \<lparr>name = ''Column1'', minLength = Num (2 ^ 53 - 1), maxLength = Num (- (2 ^ 53 - 1)), emptyCount = Num 0, stringCount = Num 0, intCount = Num 0, floatCount = Num 0\<rparr>], 0)"
  using readHeader_columns[OF header_file_row, of 65536]
    readHeader_columns[OF plain_file_row, of 65536]
    header_file_row header_file_names plain_file_names
  by (simp add: defaultConfig_def rx_literal_def sizeOf1KB_def)

section \<open>Properties of sliceFile\<close>

lemma window_count_step:
  assumes "0 < csize" "offset < fsize"
  shows "window_count fsize csize offset = Suc (window_count fsize csize (offset + csize))"
proof (cases "fsize - offset \<le> csize")
  case True
  with assms have "fsize - offset + csize - 1 < 2 * csize" "csize \<le> fsize - offset + csize - 1"
    by auto
  then have "(fsize - offset + csize - 1) div csize = 1"
    using assms(1) by (metis (no_types) div_nat_eqI mult.commute mult_2 mult_2_right nat_mult_1_right One_nat_def mult_Suc_right)
  moreover from True assms have "(fsize - (offset + csize) + csize - 1) div csize = 0"
    by simp
  ultimately show ?thesis by (simp add: window_count_def)
next
  case False
  define X where "X = fsize - (offset + csize) + csize - 1"
  from False have e: "fsize - offset + csize - 1 = X + csize"
    by (simp add: X_def)
  have "window_count fsize csize offset = (X + csize) div csize"
    by (simp only: window_count_def e)
  also have "\<dots> = Suc (X div csize)"
    using assms(1) div_add_self2[of csize X] by auto
  also have "X div csize = window_count fsize csize (offset + csize)"
    by (simp only: window_count_def X_def)
  finally show ?thesis .
qed

lemma windows_from_Suc:
  "windows_from fsize csize start (Suc n) =
     \<lparr>w_start = start, w_end = min (start + csize) fsize\<rparr> # windows_from fsize csize (start + csize) n"
proof -
  have "[0..<Suc n] = 0 # map Suc [0..<n]"
    by (simp add: upt_conv_Cons map_Suc_upt del: upt_Suc)
  then show ?thesis
    by (simp add: windows_from_def comp_def add.assoc add.left_commute del: upt_Suc)
qed

lemma tentative_eq:
  assumes "0 < csize"
  shows "tentative fsize csize offset acc =
     Some (acc @ windows_from fsize csize offset (window_count fsize csize offset))"
proof (induction "fsize - offset" arbitrary: offset acc rule: less_induct)
  case less
  show ?case
  proof (cases "offset < fsize")
    case False
    then have "window_count fsize csize offset = 0"
      using assms by (simp add: window_count_def)
    with False show ?thesis
      by (subst tentative.simps) (simp add: windows_from_def)
  next
    case True
    with assms have "fsize - (offset + csize) < fsize - offset" by simp
    from less[OF this] True window_count_step[OF assms True] show ?thesis
      by (subst tentative.simps) (simp add: windows_from_Suc)
  qed
qed


lemma shift_all:
  assumes "m < length ws"
  shows "fold shift_boundary (map (\<lambda>i. \<lparr>r_index = i, r_offset = offs i\<rparr>) [0..<m]) ws =
    map (\<lambda>i. \<lparr>w_start = w_start (ws ! i) + (if 0 < i \<and> i \<le> m then offs (i - 1) else 0),
               w_end = w_end (ws ! i) + (if i < m then offs i else 0)\<rparr>) [0..<length ws]"
  using assms
proof (induction m)
  case 0
  show ?case by (intro nth_equalityI) simp_all
next
  case (Suc m)
  then have m: "m < length ws" "Suc m < length ws" by simp_all
  define L where "L = map (\<lambda>i. \<lparr>w_start = w_start (ws ! i) + (if 0 < i \<and> i \<le> m then offs (i - 1) else 0),
               w_end = w_end (ws ! i) + (if i < m then offs i else 0)\<rparr>) [0..<length ws]"
  have IH: "fold shift_boundary (map (\<lambda>i. \<lparr>r_index = i, r_offset = offs i\<rparr>) [0..<m]) ws = L"
    unfolding L_def by (rule Suc.IH[OF m(1)])
  have len: "length L = length ws" by (simp add: L_def)
  have nthL: "\<And>i. i < length ws \<Longrightarrow> L ! i =
      \<lparr>w_start = w_start (ws ! i) + (if 0 < i \<and> i \<le> m then offs (i - 1) else 0),
       w_end = w_end (ws ! i) + (if i < m then offs i else 0)\<rparr>"
    by (simp add: L_def)
  have "shift_boundary \<lparr>r_index = m, r_offset = offs m\<rparr> L =
    map (\<lambda>i. \<lparr>w_start = w_start (ws ! i) + (if 0 < i \<and> i \<le> Suc m then offs (i - 1) else 0),
               w_end = w_end (ws ! i) + (if i < Suc m then offs i else 0)\<rparr>) [0..<length ws]"
  proof (rule nth_equalityI)
    show "length (shift_boundary \<lparr>r_index = m, r_offset = offs m\<rparr> L) =
      length (map (\<lambda>i. \<lparr>w_start = w_start (ws ! i) + (if 0 < i \<and> i \<le> Suc m then offs (i - 1) else 0),
               w_end = w_end (ws ! i) + (if i < Suc m then offs i else 0)\<rparr>) [0..<length ws])"
      by (simp add: shift_boundary_def Let_def len)
  next
    fix i
    assume "i < length (shift_boundary \<lparr>r_index = m, r_offset = offs m\<rparr> L)"
    then have i: "i < length ws" by (simp add: shift_boundary_def Let_def len)
    consider "i = m" | "i = Suc m" | "i \<noteq> m" "i \<noteq> Suc m" by blast
    then show "shift_boundary \<lparr>r_index = m, r_offset = offs m\<rparr> L ! i =
      map (\<lambda>i. \<lparr>w_start = w_start (ws ! i) + (if 0 < i \<and> i \<le> Suc m then offs (i - 1) else 0),
               w_end = w_end (ws ! i) + (if i < Suc m then offs i else 0)\<rparr>) [0..<length ws] ! i"
    proof cases
      case 1
      with m show ?thesis
        by (simp add: shift_boundary_def Let_def len nthL)
    next
      case 2
      with m show ?thesis
        by (simp add: shift_boundary_def Let_def len nthL)
    next
      case 3
      with i m show ?thesis
        by (simp add: shift_boundary_def Let_def len nthL)
    qed
  qed
  then show ?case
    by (simp only: upt_Suc_append[OF le0] map_append fold_append comp_def IH list.map fold_simps)
qed

lemma window_count_le:
  assumes "0 < csize" "k < window_count fsize csize start"
  shows "start + k * csize < fsize"
proof -
  have "window_count fsize csize start * csize \<le> fsize - start + csize - 1"
    by (simp add: window_count_def)
  moreover from assms(2) have "Suc k * csize \<le> window_count fsize csize start * csize"
    by (intro mult_le_mono1) simp
  ultimately have "k * csize + csize \<le> fsize - start + csize - 1" by simp
  with assms(1) show ?thesis by simp
qed

lemma window_count_ge:
  assumes "0 < csize"
  shows "fsize \<le> start + window_count fsize csize start * csize"
proof -
  from dividend_less_div_times[OF assms, of "fsize - start + csize - 1"]
  have "fsize - start + csize - 1 < csize + window_count fsize csize start * csize"
    by (simp add: window_count_def)
  with assms show ?thesis by simp
qed


lemma boundary_results:
  "map (run_task worker) (boundary_tasks cfg tw) =
     map (\<lambda>i. \<lparr>r_index = i, r_offset = worker (boundary_tasks cfg tw ! i)\<rparr>) [0..<length tw - 1]"
  by (rule nth_equalityI) (simp_all add: boundary_tasks_def run_task_def)

lemma sliceFile_eq:
  assumes "0 < chunkSize cfg"
    and "tw = windows_from fsize (chunkSize cfg) start (window_count fsize (chunkSize cfg) start)"
  shows "sliceFile worker fsize start cfg =
    Some (map (\<lambda>i. \<lparr>w_start = w_start (tw ! i) +
                   (if 0 < i \<and> i \<le> length tw - 1 then worker (boundary_tasks cfg tw ! (i - 1)) else 0),
                 w_end = w_end (tw ! i) +
                   (if i < length tw - 1 then worker (boundary_tasks cfg tw ! i) else 0)\<rparr>)
            [0..<length tw])"
proof -
  have t: "tentative fsize (chunkSize cfg) start [] = Some tw"
    by (simp add: tentative_eq[OF assms(1)] assms(2))
  show ?thesis
  proof (cases "tw = []")
    case True
    with t show ?thesis by (simp add: sliceFile_def boundary_tasks_def)
  next
    case False
    then have "length tw - 1 < length tw" by (cases tw) simp_all
    from shift_all[OF this, of "\<lambda>i. worker (boundary_tasks cfg tw ! i)"] t show ?thesis
      by (simp only: sliceFile_def option.case Let_def boundary_results)
  qed
qed

text \<open>
  Claim C5. With a positive \<open>chunkSize\<close>, \<open>sliceFile\<close> returns. Its loop cuts the bytes from
  \<open>start\<close> to the file size into consecutive windows of \<open>chunkSize\<close> bytes, the last one
  clipped to the file size; there is one task for each window but the last, task \<open>i\<close>
  carrying the index \<open>i\<close> and window \<open>i\<close>; the offset the worker reports for task \<open>i\<close> is
  added to the end of chunk \<open>i\<close> and to the start of chunk \<open>i + 1\<close>, so that each chunk ends
  where the next one starts; the first chunk starts at \<open>start\<close> and the last one ends at the
  file size. The list is empty exactly when \<open>start\<close> is not below the file size.
\<close>
theorem sliceFile_contiguous:
  assumes "0 < chunkSize cfg"
  shows "\<exists>blobs tw scans.
    sliceFile worker fsize start cfg = Some blobs \<and>
    tentative fsize (chunkSize cfg) start [] = Some tw \<and>
    tw = windows_from fsize (chunkSize cfg) start (length blobs) \<and>
    scans = boundary_tasks cfg tw \<and>
    length scans = length blobs - 1 \<and>
    (\<forall>i<length scans. t_index (scans ! i) = i \<and>
       t_start (scans ! i) = w_start (tw ! i) \<and> t_end (scans ! i) = w_end (tw ! i)) \<and>
    (\<forall>i. i + 1 < length blobs \<longrightarrow>
       w_end (blobs ! i) = w_end (tw ! i) + worker (scans ! i) \<and>
       w_start (blobs ! (i + 1)) = w_start (tw ! (i + 1)) + worker (scans ! i) \<and>
       w_end (blobs ! i) = w_start (blobs ! (i + 1))) \<and>
    (blobs \<noteq> [] \<longrightarrow> w_start (hd blobs) = start \<and> w_end (last blobs) = fsize) \<and>
    (blobs = [] \<longleftrightarrow> fsize \<le> start)"
proof -
  define n where "n = window_count fsize (chunkSize cfg) start"
  define tw where "tw = windows_from fsize (chunkSize cfg) start n"
  define scans where "scans = boundary_tasks cfg tw"
  define blobs where "blobs = map (\<lambda>i. \<lparr>w_start = w_start (tw ! i) +
                   (if 0 < i \<and> i \<le> length tw - 1 then worker (scans ! (i - 1)) else 0),
                 w_end = w_end (tw ! i) +
                   (if i < length tw - 1 then worker (scans ! i) else 0)\<rparr>)
            [0..<length tw]"
  have ltw: "length tw = n" by (simp add: tw_def windows_from_def)
  have lb: "length blobs = n" by (simp add: blobs_def ltw)
  have s: "sliceFile worker fsize start cfg = Some blobs"
    unfolding blobs_def scans_def
    by (rule sliceFile_eq[OF assms]) (simp add: tw_def n_def)
  have t: "tentative fsize (chunkSize cfg) start [] = Some tw"
    by (simp add: tentative_eq[OF assms] tw_def n_def)
  have tw': "tw = windows_from fsize (chunkSize cfg) start (length blobs)"
    by (simp add: lb tw_def)
  have nth_tw: "\<And>k. k < n \<Longrightarrow> tw ! k =
      \<lparr>w_start = start + k * chunkSize cfg, w_end = min (start + (k + 1) * chunkSize cfg) fsize\<rparr>"
    by (simp add: tw_def windows_from_def)
  have inside: "\<And>k. k < n \<Longrightarrow> start + k * chunkSize cfg < fsize"
    unfolding n_def by (rule window_count_le[OF assms])
  have lt: "length scans = length blobs - 1"
    by (simp add: scans_def boundary_tasks_def ltw lb)
  have tk: "\<forall>i<length scans. t_index (scans ! i) = i \<and>
       t_start (scans ! i) = w_start (tw ! i) \<and> t_end (scans ! i) = w_end (tw ! i)"
    by (simp add: scans_def boundary_tasks_def)
  have shifts: "\<forall>i. i + 1 < length blobs \<longrightarrow>
       w_end (blobs ! i) = w_end (tw ! i) + worker (scans ! i) \<and>
       w_start (blobs ! (i + 1)) = w_start (tw ! (i + 1)) + worker (scans ! i) \<and>
       w_end (blobs ! i) = w_start (blobs ! (i + 1))"
  proof (intro allI impI)
    fix i assume i: "i + 1 < length blobs"
    then have i': "i < n" "Suc i < n" "i < n - 1" by (simp_all add: lb)
    have e: "w_end (blobs ! i) = w_end (tw ! i) + worker (scans ! i)"
      using i' by (simp add: blobs_def ltw)
    have st: "w_start (blobs ! (i + 1)) = w_start (tw ! (i + 1)) + worker (scans ! i)"
      using i' by (simp add: blobs_def ltw)
    from inside[OF i'(2)] have "w_end (tw ! i) = w_start (tw ! (i + 1))"
      using i' by (simp add: nth_tw)
    with e st show "w_end (blobs ! i) = w_end (tw ! i) + worker (scans ! i) \<and>
       w_start (blobs ! (i + 1)) = w_start (tw ! (i + 1)) + worker (scans ! i) \<and>
       w_end (blobs ! i) = w_start (blobs ! (i + 1))" by simp
  qed
  have ends: "blobs \<noteq> [] \<longrightarrow> w_start (hd blobs) = start \<and> w_end (last blobs) = fsize"
  proof
    assume "blobs \<noteq> []"
    then have n: "0 < n" using lb by (cases blobs) auto
    have "w_start (blobs ! 0) = start"
      using n by (simp add: blobs_def ltw nth_tw)
    moreover have "w_end (blobs ! (n - 1)) = w_end (tw ! (n - 1))"
      using n by (simp add: blobs_def ltw)
    moreover have "w_end (tw ! (n - 1)) = fsize"
      using n window_count_ge[OF assms, of fsize start] by (simp add: nth_tw n_def)
    ultimately show "w_start (hd blobs) = start \<and> w_end (last blobs) = fsize"
      using \<open>blobs \<noteq> []\<close> lb by (simp add: hd_conv_nth last_conv_nth)
  qed
  have empty: "blobs = [] \<longleftrightarrow> fsize \<le> start"
  proof
    assume "blobs = []"
    with lb have "n = 0" by simp
    with window_count_ge[OF assms, of fsize start] show "fsize \<le> start" by (simp add: n_def)
  next
    assume "fsize \<le> start"
    with assms have "n = 0" by (simp add: n_def window_count_def)
    with lb show "blobs = []" by simp
  qed
  have scans: "scans = boundary_tasks cfg tw" by (rule scans_def)
  show ?thesis
    apply (rule exI[of _ blobs])
    apply (rule exI[of _ tw])
    apply (rule exI[of _ scans])
    apply (intro conjI)
            apply (rule s)
           apply (rule t)
          apply (rule tw')
         apply (rule scans)
        apply (rule lt)
       apply (rule tk)
      apply (rule shifts)
     apply (rule ends)
    apply (rule empty)
    done
qed


text \<open>
  Witness for C5: a file of 100 bytes read from offset 10 in chunks of 30 bytes, the
  worker reporting the offsets 1 and 2.
\<close>
lemma sliceFile_example:
  "sliceFile (\<lambda>t. t_index t + 1) 100 10 (defaultConfig\<lparr>chunkSize := 30\<rparr>) =
     Some [\<lparr>w_start = 10, w_end = 41\<rparr>, \<lparr>w_start = 41, w_end = 72\<rparr>, \<lparr>w_start = 72, w_end = 100\<rparr>]"
  by (simp add: sliceFile_def tentative.simps boundary_tasks_def run_task_def shift_boundary_def
      defaultConfig_def upt_rec)

theorem sliceFile_contiguous_witness:
  "0 < chunkSize (defaultConfig\<lparr>chunkSize := 30\<rparr>) \<and>
   sliceFile (\<lambda>t. t_index t + 1) 100 10 (defaultConfig\<lparr>chunkSize := 30\<rparr>) =
     Some [\<lparr>w_start = 10, w_end = 41\<rparr>, \<lparr>w_start = 41, w_end = 72\<rparr>, \<lparr>w_start = 72, w_end = 100\<rparr>] \<and>
   (1::nat) + 1 < length [\<lparr>w_start = 10, w_end = 41\<rparr>, \<lparr>w_start = 41, w_end = 72\<rparr>,
       \<lparr>w_start = 72, w_end = (100::nat)\<rparr>] \<and>
   [\<lparr>w_start = 10, w_end = 41\<rparr>, \<lparr>w_start = 41, w_end = 72\<rparr>, \<lparr>w_start = 72, w_end = (100::nat)\<rparr>] \<noteq> []"
proof -
  have h: "0 < chunkSize (defaultConfig\<lparr>chunkSize := 30\<rparr>)" by simp
  from sliceFile_contiguous[OF h, of "\<lambda>t. t_index t + 1" 100 10]
  obtain blobs where "sliceFile (\<lambda>t. t_index t + 1) 100 10 (defaultConfig\<lparr>chunkSize := 30\<rparr>) = Some blobs"
    by blast
  with sliceFile_example h show ?thesis by auto
qed

section \<open>Properties of mergeChunksIntoBuffer\<close>

lemma region_start_Cons:
  "region_start D L (c # cs) (Suc i) = region_start (D + h_rowCount (p_header c) * L) L cs i"
  by (simp add: region_start_def)

lemma merge_tasks_eq:
  "merge_tasks (Num (int L)) (Num (int D)) cs =
     map (\<lambda>i. MergeIntoBuffer (Num (int (region_start D L cs i))) (cs ! i)) [0..<length cs]"
proof (induction cs arbitrary: D)
  case Nil
  show ?case by simp
next
  case (Cons c cs)
  have "[0..<length (c # cs)] = 0 # map Suc [0..<length cs]"
    by (simp add: upt_conv_Cons map_Suc_upt del: upt_Suc)
  moreover have "num_add (Num (int D)) (num_mul (Num (int (h_rowCount (p_header c)))) (Num (int L)))
      = Num (int (D + h_rowCount (p_header c) * L))"
    by simp
  ultimately show ?case
    by (simp add: Cons.IH region_start_Cons del: upt_Suc of_nat_add of_nat_mult)
      (simp add: region_start_def)
qed

lemma region_start_mono:
  assumes "i < j"
  shows "region_start D L cs i + h_rowCount (p_header (cs ! i)) * L \<le> region_start D L cs j \<or> length cs \<le> i"
proof (cases "i < length cs")
  case False
  then show ?thesis by simp
next
  case True
  have "take (Suc i) cs = take i cs @ [cs ! i]"
    by (rule take_Suc_conv_app_nth[OF True])
  then have s: "region_start D L cs (Suc i) = region_start D L cs i + h_rowCount (p_header (cs ! i)) * L"
    by (simp add: region_start_def)
  from assms have "Suc i \<le> j" by simp
  then obtain d where j: "j = Suc i + d" by (auto simp: le_iff_add)
  have "take (Suc i + d) cs = take (Suc i) cs @ take d (drop (Suc i) cs)"
    by (rule take_add)
  then have "region_start D L cs (Suc i) \<le> region_start D L cs j"
    unfolding j region_start_def by (simp only: map_append sum_list.append)
  with s show ?thesis by simp
qed

lemma parallel_path:
  assumes "mergeChunksIntoBuffer True chunks bh0 out = Inr (bh, SharedArrayBuffer len, scheduled)"
  shows "scheduled = merge_tasks (rowLength bh) (dataOffset bh) chunks \<and> rowLength bh = rowLength bh0
    \<and> dataLength bh = dataLength bh0"
  using assms
  by (auto simp: mergeChunksIntoBuffer_def Let_def split: option.splits sum.splits buffer.splits if_splits)


lemma region_start_all:
  "region_start D L cs (length cs) = D + L * sum_list (map (\<lambda>c. h_rowCount (p_header c)) cs)"
  by (simp add: region_start_def sum_list_mult_const)

lemma region_start_Suc:
  "i < length cs \<Longrightarrow>
   region_start D L cs (Suc i) = region_start D L cs i + h_rowCount (p_header (cs ! i)) * L"
  by (simp add: region_start_def take_Suc_conv_app_nth)

text \<open>
  Claim C7. On the shared-memory path (the constant \<open>supportsSharedMemory\<close> holds and the
  buffer is a \<^verbatim>\<open>SharedArrayBuffer\<close>), with a row length \<open>L\<close> and a data offset \<open>D\<close>, there is
  one task for each chunk; the region of chunk \<open>i\<close> starts at \<open>D\<close> plus the sum, over the
  chunks before \<open>i\<close>, of the row count times \<open>L\<close>, and spans the row count of chunk \<open>i\<close> times
  \<open>L\<close> bytes. A region ends at or before the start of every later one, and when the data
  length of the header is \<open>L\<close> times the sum of the row counts of the chunks, the last
  region ends at the data offset plus the data length.
\<close>
theorem merge_regions_disjoint:
  assumes "mergeChunksIntoBuffer True chunks bh0 out = Inr (bh, SharedArrayBuffer len, scheduled)"
    and "rowLength bh0 = Num (int L)" and "dataOffset bh = Num (int D)"
  shows "length scheduled = length chunks \<and>
    (\<forall>i<length chunks.
        scheduled ! i = MergeIntoBuffer (Num (int (region_start D L chunks i))) (chunks ! i) \<and>
        write_region bh (scheduled ! i) =
          (Num (int (region_start D L chunks i)),
           Num (int (region_start D L chunks i + h_rowCount (p_header (chunks ! i)) * L)))) \<and>
    (\<forall>i j. i < j \<and> j < length chunks \<longrightarrow>
        region_start D L chunks i + h_rowCount (p_header (chunks ! i)) * L
          \<le> region_start D L chunks j) \<and>
    (chunks \<noteq> [] \<and>
     dataLength bh0 = Num (int (L * sum_list (map (\<lambda>c. h_rowCount (p_header c)) chunks))) \<longrightarrow>
        snd (write_region bh (last scheduled)) = num_add (dataOffset bh) (dataLength bh))"
proof -
  from parallel_path[OF assms(1)] assms(2,3)
  have t: "scheduled = map (\<lambda>i. MergeIntoBuffer (Num (int (region_start D L chunks i))) (chunks ! i))
      [0..<length chunks]"
    and rl: "rowLength bh = Num (int L)" and dl: "dataLength bh = dataLength bh0"
    by (simp_all add: merge_tasks_eq)
  have len: "length scheduled = length chunks" by (simp add: t)
  have nth: "\<forall>i<length chunks.
        scheduled ! i = MergeIntoBuffer (Num (int (region_start D L chunks i))) (chunks ! i) \<and>
        write_region bh (scheduled ! i) =
          (Num (int (region_start D L chunks i)),
           Num (int (region_start D L chunks i + h_rowCount (p_header (chunks ! i)) * L)))"
    by (simp add: t rl)
  have disj: "\<forall>i j. i < j \<and> j < length chunks \<longrightarrow>
        region_start D L chunks i + h_rowCount (p_header (chunks ! i)) * L
          \<le> region_start D L chunks j"
    using region_start_mono[of _ _ D L chunks] by fastforce
  have last: "chunks \<noteq> [] \<and>
     dataLength bh0 = Num (int (L * sum_list (map (\<lambda>c. h_rowCount (p_header c)) chunks))) \<longrightarrow>
        snd (write_region bh (last scheduled)) = num_add (dataOffset bh) (dataLength bh)"
  proof
    assume a: "chunks \<noteq> [] \<and>
      dataLength bh0 = Num (int (L * sum_list (map (\<lambda>c. h_rowCount (p_header c)) chunks)))"
    then have n: "length chunks - 1 < length chunks" by (cases chunks) simp_all
    from a len have "scheduled \<noteq> []" by auto
    then have "last scheduled = scheduled ! (length chunks - 1)"
      by (simp add: last_conv_nth len)
    with nth n have "snd (write_region bh (last scheduled)) =
        Num (int (region_start D L chunks (length chunks - 1)
           + h_rowCount (p_header (chunks ! (length chunks - 1))) * L))"
      by (simp add: rl)
    also have "region_start D L chunks (length chunks - 1)
           + h_rowCount (p_header (chunks ! (length chunks - 1))) * L
        = region_start D L chunks (length chunks)"
    proof -
      from a have "Suc (length chunks - 1) = length chunks" by (cases chunks) simp_all
      with region_start_Suc[OF n, of D L] show ?thesis by simp
    qed
    also have "Num (int (region_start D L chunks (length chunks))) = num_add (dataOffset bh) (dataLength bh)"
      using a by (simp add: region_start_all assms(3) dl)
    finally show "snd (write_region bh (last scheduled)) = num_add (dataOffset bh) (dataLength bh)" .
  qed
  from len nth disj last show ?thesis by (intro conjI)
qed

text \<open>Witness for C7: two chunks of 2 and 3 rows of 6 bytes, written from offset 0.\<close>
lemma merge_example:
  "mergeChunksIntoBuffer True [ex_p0, ex_p1] ex_bh None =
     Inr (ex_bh, SharedArrayBuffer 30, [MergeIntoBuffer (Num 0) ex_p0, MergeIntoBuffer (Num 12) ex_p1])"
  by (simp add: mergeChunksIntoBuffer_def ex_bh_def ex_p0_def ex_p1_def)

theorem merge_regions_disjoint_witness:
  "mergeChunksIntoBuffer True [ex_p0, ex_p1] ex_bh None =
     Inr (ex_bh, SharedArrayBuffer 30, [MergeIntoBuffer (Num 0) ex_p0, MergeIntoBuffer (Num 12) ex_p1]) \<and>
   rowLength ex_bh = Num (int 6) \<and> dataOffset ex_bh = Num (int 0) \<and>
   (0::nat) < 1 \<and> 1 < length [ex_p0, ex_p1] \<and> [ex_p0, ex_p1] \<noteq> [] \<and>
   dataLength ex_bh = Num (int (6 * sum_list (map (\<lambda>c. h_rowCount (p_header c)) [ex_p0, ex_p1]))) \<and>
   region_start 0 6 [ex_p0, ex_p1] 0 + h_rowCount (p_header ([ex_p0, ex_p1] ! 0)) * 6
     \<le> region_start 0 6 [ex_p0, ex_p1] 1 \<and>
   write_region ex_bh (MergeIntoBuffer (Num 0) ex_p0) = (Num 0, Num 12) \<and>
   write_region ex_bh (MergeIntoBuffer (Num 12) ex_p1) = (Num 12, Num 30)"
proof -
  have r: "rowLength ex_bh = Num (int 6)" and d: "dataOffset ex_bh = Num (int 0)"
    by (simp_all add: ex_bh_def)
  from merge_regions_disjoint[OF merge_example r d]
  have a: "\<forall>i j. i < j \<and> j < length [ex_p0, ex_p1] \<longrightarrow>
        region_start 0 6 [ex_p0, ex_p1] i + h_rowCount (p_header ([ex_p0, ex_p1] ! i)) * 6
          \<le> region_start 0 6 [ex_p0, ex_p1] j"
    by (rule conjunct2[THEN conjunct2, THEN conjunct1])
  from a[rule_format, of 0 1]
  have "region_start 0 6 [ex_p0, ex_p1] 0 + h_rowCount (p_header ([ex_p0, ex_p1] ! 0)) * 6
     \<le> region_start 0 6 [ex_p0, ex_p1] 1"
    by simp
  with merge_example r d show ?thesis
    by (simp add: ex_bh_def ex_p0_def ex_p1_def)
qed

section \<open>Properties of analyzeBlobs\<close>

lemma Math_min_swap: "Math_min (Math_min a x) y = Math_min (Math_min a y) x"
  by (cases a; cases x; cases y) (simp_all add: min.left_commute min.commute)

lemma Math_max_swap: "Math_max (Math_max a x) y = Math_max (Math_max a y) x"
  by (cases a; cases x; cases y) (simp_all add: max.left_commute max.commute)

lemma num_add_swap: "num_add (num_add a x) y = num_add (num_add a y) x"
  by (cases a; cases x; cases y) simp_all

lemma update_stat_swap:
  "update_stat mv c (update_stat mv' c h) = update_stat mv' c (update_stat mv c h)"
  by (simp add: update_stat_def Let_def Math_min_swap Math_max_swap num_add_swap)

lemma fold_column_upto:
  "n \<le> length h \<Longrightarrow>
   fold (fold_column mv) [0..<n] h =
     map (\<lambda>c. if c < n then update_stat mv c (h ! c) else h ! c) [0..<length h]"
proof (induction n)
  case 0
  show ?case by (intro nth_equalityI) simp_all
next
  case (Suc n)
  then have n: "n \<le> length h" "n < length h" by simp_all
  show ?case
    unfolding upt_Suc_append[OF le0] fold_append comp_def fold_simps Suc.IH[OF n(1)]
    using n by (intro nth_equalityI) (auto simp: fold_column_def nth_list_update)
qed

lemma step_header:
  "an_header (analyze_result_step r a) =
     map (\<lambda>c. update_stat (a_columns r) c (an_header a ! c)) [0..<length (an_header a)]"
  by (simp add: analyze_result_step_def fold_column_upto)


lemma step_length: "length (an_header (analyze_result_step r a)) = length (an_header a)"
  by (simp add: step_header)

lemma fold_header:
  "an_header (fold analyze_result_step rs a) =
     map (\<lambda>c. fold (\<lambda>r. update_stat (a_columns r) c) rs (an_header a ! c)) [0..<length (an_header a)]"
proof (induction rs arbitrary: a)
  case Nil
  show ?case by (intro nth_equalityI) simp_all
next
  case (Cons r rs)
  show ?case
    by (simp add: Cons.IH step_length) (simp add: step_header)
qed

lemma fold_meta:
  "an_meta (fold analyze_result_step rs a) =
     \<lparr>rowCount = rowCount (an_meta a) + sum_list (map (\<lambda>r. st_rowCount (a_stats r)) rs),
      malformedRows = malformedRows (an_meta a) + sum_list (map (\<lambda>r. st_malformedRows (a_stats r)) rs)\<rparr>"
  by (induction rs arbitrary: a) (simp_all add: analyze_result_step_def)

lemma fold_update_stat_perm:
  assumes "mset rs = mset rs'"
  shows "fold (\<lambda>r. update_stat (a_columns r) c) rs h = fold (\<lambda>r. update_stat (a_columns r) c) rs' h"
proof -
  have "fold (\<lambda>r. update_stat (a_columns r) c) rs = fold (\<lambda>r. update_stat (a_columns r) c) rs'"
    by (rule fold_multiset_equiv[OF _ assms]) (simp add: fun_eq_iff update_stat_swap)
  then show ?thesis by simp
qed

lemma fold_update_stat_fields:
  "name (fold (\<lambda>r. update_stat (a_columns r) c) rs h) = name h"
  "minLength (fold (\<lambda>r. update_stat (a_columns r) c) rs h) =
     fold (\<lambda>r m. Math_min m (typed_get (a_columns r) (c * 6))) rs (minLength h)"
  "maxLength (fold (\<lambda>r. update_stat (a_columns r) c) rs h) =
     fold (\<lambda>r m. Math_max m (typed_get (a_columns r) (c * 6 + 1))) rs (maxLength h)"
  "intCount (fold (\<lambda>r. update_stat (a_columns r) c) rs h) =
     fold (\<lambda>r m. num_add m (typed_get (a_columns r) (c * 6 + 2))) rs (intCount h)"
  "floatCount (fold (\<lambda>r. update_stat (a_columns r) c) rs h) =
     fold (\<lambda>r m. num_add m (typed_get (a_columns r) (c * 6 + 3))) rs (floatCount h)"
  "stringCount (fold (\<lambda>r. update_stat (a_columns r) c) rs h) =
     fold (\<lambda>r m. num_add m (typed_get (a_columns r) (c * 6 + 4))) rs (stringCount h)"
  "emptyCount (fold (\<lambda>r. update_stat (a_columns r) c) rs h) =
     fold (\<lambda>r m. num_add m (typed_get (a_columns r) (c * 6 + 5))) rs (emptyCount h)"
  by (induction rs arbitrary: h; simp add: update_stat_def Let_def)+

text \<open>
  Claim C6. The fold of \<open>analyzeBlobs\<close> does not depend on the order of the results: two
  lists of results that are permutations of each other give the same ColumnStat list and
  the same aggregate. For each column, \<open>minLength\<close> is the running \<^verbatim>\<open>Math.min\<close> and
  \<open>maxLength\<close> the running \<^verbatim>\<open>Math.max\<close> of the entries of the results, the four counts are
  running sums, and the aggregate \<open>rowCount\<close> and \<open>malformedRows\<close> are the sums over the
  results.
\<close>
theorem analyzeBlobs_order_independent:
  assumes "mset rs' = mset rs"
  shows "an_header (analyzeBlobs header rs') = an_header (analyzeBlobs header rs) \<and>
    an_meta (analyzeBlobs header rs') = an_meta (analyzeBlobs header rs) \<and>
    length (an_header (analyzeBlobs header rs)) = length header \<and>
    (\<forall>c<length header.
       name (an_header (analyzeBlobs header rs) ! c) = name (header ! c) \<and>
       minLength (an_header (analyzeBlobs header rs) ! c) =
         fold (\<lambda>r m. Math_min m (typed_get (a_columns r) (c * 6))) rs (minLength (header ! c)) \<and>
       maxLength (an_header (analyzeBlobs header rs) ! c) =
         fold (\<lambda>r m. Math_max m (typed_get (a_columns r) (c * 6 + 1))) rs (maxLength (header ! c)) \<and>
       intCount (an_header (analyzeBlobs header rs) ! c) =
         fold (\<lambda>r m. num_add m (typed_get (a_columns r) (c * 6 + 2))) rs (intCount (header ! c)) \<and>
       floatCount (an_header (analyzeBlobs header rs) ! c) =
         fold (\<lambda>r m. num_add m (typed_get (a_columns r) (c * 6 + 3))) rs (floatCount (header ! c)) \<and>
       stringCount (an_header (analyzeBlobs header rs) ! c) =
         fold (\<lambda>r m. num_add m (typed_get (a_columns r) (c * 6 + 4))) rs (stringCount (header ! c)) \<and>
       emptyCount (an_header (analyzeBlobs header rs) ! c) =
         fold (\<lambda>r m. num_add m (typed_get (a_columns r) (c * 6 + 5))) rs (emptyCount (header ! c))) \<and>
    rowCount (an_meta (analyzeBlobs header rs)) = sum_list (map (\<lambda>r. st_rowCount (a_stats r)) rs) \<and>
    malformedRows (an_meta (analyzeBlobs header rs)) = sum_list (map (\<lambda>r. st_malformedRows (a_stats r)) rs)"
proof -
  have h: "\<And>xs. an_header (analyzeBlobs header xs) =
      map (\<lambda>c. fold (\<lambda>r. update_stat (a_columns r) c) xs (header ! c)) [0..<length header]"
    by (simp add: analyzeBlobs_def fold_header)
  have m: "\<And>xs. an_meta (analyzeBlobs header xs) =
      \<lparr>rowCount = sum_list (map (\<lambda>r. st_rowCount (a_stats r)) xs),
       malformedRows = sum_list (map (\<lambda>r. st_malformedRows (a_stats r)) xs)\<rparr>"
    by (simp add: analyzeBlobs_def fold_meta)
  have s1: "sum_list (map (\<lambda>r. st_rowCount (a_stats r)) rs') = sum_list (map (\<lambda>r. st_rowCount (a_stats r)) rs)"
    using assms by (metis mset_map sum_mset_sum_list)
  have s2: "sum_list (map (\<lambda>r. st_malformedRows (a_stats r)) rs') = sum_list (map (\<lambda>r. st_malformedRows (a_stats r)) rs)"
    using assms by (metis mset_map sum_mset_sum_list)
  have "an_header (analyzeBlobs header rs') = an_header (analyzeBlobs header rs)"
    unfolding h by (simp add: fold_update_stat_perm[OF assms])
  moreover have "an_meta (analyzeBlobs header rs') = an_meta (analyzeBlobs header rs)"
    unfolding m by (simp add: s1 s2)
  moreover have "length (an_header (analyzeBlobs header rs)) = length header"
    by (simp add: h)
  moreover have "\<forall>c<length header.
       name (an_header (analyzeBlobs header rs) ! c) = name (header ! c) \<and>
       minLength (an_header (analyzeBlobs header rs) ! c) =
         fold (\<lambda>r m. Math_min m (typed_get (a_columns r) (c * 6))) rs (minLength (header ! c)) \<and>
       maxLength (an_header (analyzeBlobs header rs) ! c) =
         fold (\<lambda>r m. Math_max m (typed_get (a_columns r) (c * 6 + 1))) rs (maxLength (header ! c)) \<and>
       intCount (an_header (analyzeBlobs header rs) ! c) =
         fold (\<lambda>r m. num_add m (typed_get (a_columns r) (c * 6 + 2))) rs (intCount (header ! c)) \<and>
       floatCount (an_header (analyzeBlobs header rs) ! c) =
         fold (\<lambda>r m. num_add m (typed_get (a_columns r) (c * 6 + 3))) rs (floatCount (header ! c)) \<and>
       stringCount (an_header (analyzeBlobs header rs) ! c) =
         fold (\<lambda>r m. num_add m (typed_get (a_columns r) (c * 6 + 4))) rs (stringCount (header ! c)) \<and>
       emptyCount (an_header (analyzeBlobs header rs) ! c) =
         fold (\<lambda>r m. num_add m (typed_get (a_columns r) (c * 6 + 5))) rs (emptyCount (header ! c))"
    by (simp add: h fold_update_stat_fields)
  moreover have "rowCount (an_meta (analyzeBlobs header rs)) = sum_list (map (\<lambda>r. st_rowCount (a_stats r)) rs)"
    by (simp add: m)
  moreover have "malformedRows (an_meta (analyzeBlobs header rs)) = sum_list (map (\<lambda>r. st_malformedRows (a_stats r)) rs)"
    by (simp add: m)
  ultimately show ?thesis by (intro conjI)
qed

text \<open>Witness for C6: one column, two results, folded in both orders.\<close>
lemma analyzeBlobs_example:
  "an_header (analyzeBlobs ex_header [ex_r0, ex_r1]) =
     [\<lparr>name = ''a'', minLength = Num 1, maxLength = Num 5,
       emptyCount = Num 0, stringCount = Num 1, intCount = Num 3, floatCount = Num 1\<rparr>] \<and>
   an_meta (analyzeBlobs ex_header [ex_r0, ex_r1]) = \<lparr>rowCount = 5, malformedRows = 1\<rparr>"
  by (simp add: analyzeBlobs_def analyze_result_step_def fold_column_def update_stat_def
      typed_get_def ex_header_def ex_r0_def ex_r1_def MAX_SAFE_INTEGER_def MIN_SAFE_INTEGER_def)

theorem analyzeBlobs_order_independent_witness:
  "mset [ex_r1, ex_r0] = mset [ex_r0, ex_r1] \<and> 0 < length ex_header \<and>
   an_header (analyzeBlobs ex_header [ex_r1, ex_r0]) =
     [\<lparr>name = ''a'', minLength = Num 1, maxLength = Num 5,
       emptyCount = Num 0, stringCount = Num 1, intCount = Num 3, floatCount = Num 1\<rparr>] \<and>
   an_meta (analyzeBlobs ex_header [ex_r1, ex_r0]) = \<lparr>rowCount = 5, malformedRows = 1\<rparr>"
proof -
  have p: "mset [ex_r1, ex_r0] = mset [ex_r0, ex_r1]" by simp
  from analyzeBlobs_order_independent[OF p, of ex_header]
  have "an_header (analyzeBlobs ex_header [ex_r1, ex_r0]) = an_header (analyzeBlobs ex_header [ex_r0, ex_r1])"
    and "an_meta (analyzeBlobs ex_header [ex_r1, ex_r0]) = an_meta (analyzeBlobs ex_header [ex_r0, ex_r1])"
    by (rule conjunct1, rule conjunct2[THEN conjunct1])
  with analyzeBlobs_example p show ?thesis
    by (simp only: ex_header_def list.size) simp
qed

section \<open>Properties of binaryChunksFromBlobs\<close>

lemma widen_upto:
  "n \<le> length cols \<Longrightarrow>
   fold (widen ls) [0..<n] cols =
     map (\<lambda>c. if c < n
               then (cols ! c)\<lparr>col_length := Math_max (col_length (cols ! c)) (to_num (array_get ls c))\<rparr>
               else cols ! c) [0..<length cols]"
proof (induction n)
  case 0
  show ?case by (intro nth_equalityI) simp_all
next
  case (Suc n)
  then have n: "n \<le> length cols" "n < length cols" by simp_all
  show ?case
    unfolding upt_Suc_append[OF le0] fold_append comp_def fold_simps Suc.IH[OF n(1)]
    using n by (intro nth_equalityI) (auto simp: widen_def nth_list_update)
qed

lemma measure_step:
  "measure_result r (rc, cols, ordered) =
     (rc + h_rowCount (p_header r),
      map (\<lambda>c. (cols ! c)\<lparr>col_length :=
             Math_max (col_length (cols ! c)) (to_num (array_get (h_lengths (p_header r)) c))\<rparr>)
          [0..<length cols],
      ordered(p_index r \<mapsto> r))"
  by (simp add: measure_result_def widen_upto)

lemma measure_fold:
  "fold measure_result rs (rc, cols, ordered) =
     (rc + sum_list (map (\<lambda>r. h_rowCount (p_header r)) rs),
      map (\<lambda>c. (cols ! c)\<lparr>col_length :=
             fold (\<lambda>r m. Math_max m (to_num (array_get (h_lengths (p_header r)) c))) rs
               (col_length (cols ! c))\<rparr>) [0..<length cols],
      fold (\<lambda>r m. m(p_index r \<mapsto> r)) rs ordered)"
proof (induction rs arbitrary: rc cols ordered)
  case Nil
  show ?case by (simp add: map_nth)
next
  case (Cons r rs)
  show ?case
    unfolding fold_simps measure_step Cons.IH
    by simp
qed

lemma fold_Math_max_nat:
  "\<forall>r\<in>set rs. c < length (h_lengths (p_header r)) \<Longrightarrow>
   fold (\<lambda>r m. Math_max m (to_num (array_get (h_lengths (p_header r)) c))) rs (Num (int a)) =
     Num (int (fold (\<lambda>r m. max m (h_lengths (p_header r) ! c)) rs a))"
proof (induction rs arbitrary: a)
  case Nil
  show ?case by simp
next
  case (Cons r rs)
  then have c: "c < length (h_lengths (p_header r))"
    and rest: "\<forall>r\<in>set rs. c < length (h_lengths (p_header r))" by simp_all
  from c have "Math_max (Num (int a)) (to_num (array_get (h_lengths (p_header r)) c))
      = Num (int (max a (h_lengths (p_header r) ! c)))"
    by (simp add: array_get_def of_nat_max)
  then show ?case
    unfolding fold_simps by (simp only: Cons.IH[OF rest])
qed

lemma fold_max_ge: "a \<le> fold (\<lambda>r m. max m (f r)) rs (a::nat)"
proof (induction rs arbitrary: a)
  case Nil
  show ?case by simp
next
  case (Cons r rs)
  have "a \<le> max a (f r)" by simp
  also have "\<dots> \<le> fold (\<lambda>r m. max m (f r)) rs (max a (f r))" by (rule Cons.IH)
  finally show ?case by simp
qed

lemma fold_max_upper: "r \<in> set rs \<Longrightarrow> f r \<le> fold (\<lambda>r m. max m (f r)) rs (a::nat)"
proof (induction rs arbitrary: a)
  case Nil
  then show ?case by simp
next
  case (Cons x rs)
  show ?case
  proof (cases "r = x")
    case True
    have "f x \<le> max a (f x)" by simp
    also have "\<dots> \<le> fold (\<lambda>r m. max m (f r)) rs (max a (f x))" by (rule fold_max_ge)
    finally show ?thesis using True by simp
  next
    case False
    with Cons.prems have "r \<in> set rs" by simp
    from Cons.IH[OF this] show ?thesis by simp
  qed
qed

lemma fold_max_in: "fold (\<lambda>r m. max m (f r)) rs (a::nat) \<in> insert a (f ` set rs)"
proof (induction rs arbitrary: a)
  case Nil
  show ?case by simp
next
  case (Cons x rs)
  from Cons.IH[of "max a (f x)"] show ?case
    by (auto simp: max_def split: if_splits)
qed

lemma fold_max_observed:
  assumes "rs \<noteq> []"
  shows "fold (\<lambda>r m. max m (h_lengths (p_header r) ! c)) rs 0 = observed_width rs c"
proof -
  let ?f = "\<lambda>r. h_lengths (p_header r) ! c"
  let ?m = "fold (\<lambda>r m. max m (?f r)) rs 0"
  have up: "\<And>y. y \<in> ?f ` set rs \<Longrightarrow> y \<le> ?m"
    using fold_max_upper[of _ rs ?f 0] by auto
  have "?m \<in> ?f ` set rs"
  proof (cases "?m = 0")
    case False
    with fold_max_in[of ?f rs 0] show ?thesis by auto
  next
    case True
    from assms obtain r where r: "r \<in> set rs" by (cases rs) auto
    with up[of "?f r"] True have "?f r = 0" by simp
    with r True show ?thesis by force
  qed
  then have "Max (?f ` set rs) = ?m"
    using up by (intro Max_eqI) simp_all
  then show ?thesis by (simp add: observed_width_def)
qed

lemma nth_not_in_drop:
  assumes "distinct xs" "i < length xs"
  shows "xs ! i \<notin> set (drop (Suc i) xs)"
proof -
  from assms(2) have "xs = take i xs @ xs ! i # drop (Suc i) xs"
    by (rule id_take_nth_drop)
  with assms(1) have "distinct (take i xs @ xs ! i # drop (Suc i) xs)" by simp
  then show ?thesis by simp
qed

lemma layout_columns_ok:
  assumes "length cols = n"
    and "\<forall>c<n. col_length (cols ! c) = Num (int (W c))"
    and "length ord = n" and "distinct ord" and "set ord \<subseteq> {..<n}"
    and "i \<le> n"
  shows "\<exists>cols'.
     layout_columns ord [i..<n] (Num (int (sum_list (map W (take i ord)))), cols)
       = Inr (Num (int (sum_list (map W ord))), cols') \<and>
     length cols' = n \<and>
     (\<forall>c<n. col_length (cols' ! c) = col_length (cols ! c) \<and>
            col_name (cols' ! c) = col_name (cols ! c) \<and>
            col_type (cols' ! c) = col_type (cols ! c)) \<and>
     (\<forall>j. i \<le> j \<and> j < n \<longrightarrow>
            col_offset (cols' ! (ord ! j)) = Num (int (sum_list (map W (take j ord))))) \<and>
     (\<forall>c<n. c \<notin> set (drop i ord) \<longrightarrow> col_offset (cols' ! c) = col_offset (cols ! c))"
  using assms(1,2,6)
proof (induction "n - i" arbitrary: i cols)
  case 0
  then have "i = n" by simp
  with assms(3) "0.prems" show ?case by auto
next
  case (Suc d)
  then have i: "i < n" and d: "d = n - Suc i" and i': "Suc i \<le> n" by simp_all
  define k where "k = ord ! i"
  from i assms(3) have "ord ! i \<in> set ord" by simp
  with assms(5) have k: "k < n" by (auto simp: k_def)
  define cols1 where "cols1 = cols[k := (cols ! k)\<lparr>col_offset := Num (int (sum_list (map W (take i ord))))\<rparr>]"
  have l1: "length cols1 = n" by (simp add: cols1_def Suc.prems(1))
  have w1: "\<forall>c<n. col_length (cols1 ! c) = Num (int (W c))"
    using Suc.prems(1,2) k by (auto simp: cols1_def nth_list_update)
  have tk: "take (Suc i) ord = take i ord @ [k]"
    using i assms(3) by (simp add: take_Suc_conv_app_nth k_def)
  from Suc.hyps(1)[OF d l1 w1 i'] obtain cols' where
    run: "layout_columns ord [Suc i..<n] (Num (int (sum_list (map W (take (Suc i) ord)))), cols1)
       = Inr (Num (int (sum_list (map W ord))), cols')"
    and len: "length cols' = n"
    and same: "\<forall>c<n. col_length (cols' ! c) = col_length (cols1 ! c) \<and>
            col_name (cols' ! c) = col_name (cols1 ! c) \<and>
            col_type (cols' ! c) = col_type (cols1 ! c)"
    and offs: "\<forall>j. Suc i \<le> j \<and> j < n \<longrightarrow>
            col_offset (cols' ! (ord ! j)) = Num (int (sum_list (map W (take j ord))))"
    and keep: "\<forall>c<n. c \<notin> set (drop (Suc i) ord) \<longrightarrow> col_offset (cols' ! c) = col_offset (cols1 ! c)"
    by blast
  have step: "layout_columns ord [i..<n] (Num (int (sum_list (map W (take i ord)))), cols) =
      layout_columns ord [Suc i..<n] (Num (int (sum_list (map W (take (Suc i) ord)))), cols1)"
    using i k Suc.prems(1,2) assms(3)
    by (simp add: upt_conv_Cons array_get_def k_def[symmetric] cols1_def[symmetric] tk)
  have kd: "k \<notin> set (drop (Suc i) ord)"
    unfolding k_def using assms(3,4) i by (intro nth_not_in_drop) simp_all
  have di: "set (drop i ord) = insert k (set (drop (Suc i) ord))"
    using Cons_nth_drop_Suc[of i ord] i assms(3) by (metis k_def list.simps(15))
  have same': "\<forall>c<n. col_length (cols' ! c) = col_length (cols ! c) \<and>
            col_name (cols' ! c) = col_name (cols ! c) \<and>
            col_type (cols' ! c) = col_type (cols ! c)"
    using same Suc.prems(1) k by (auto simp: cols1_def nth_list_update)
  have offs': "\<forall>j. i \<le> j \<and> j < n \<longrightarrow>
            col_offset (cols' ! (ord ! j)) = Num (int (sum_list (map W (take j ord))))"
  proof (intro allI impI)
    fix j assume j: "i \<le> j \<and> j < n"
    show "col_offset (cols' ! (ord ! j)) = Num (int (sum_list (map W (take j ord))))"
    proof (cases "j = i")
      case False
      with j offs show ?thesis by simp
    next
      case True
      from keep k kd have "col_offset (cols' ! k) = col_offset (cols1 ! k)" by simp
      also have "\<dots> = Num (int (sum_list (map W (take i ord))))"
        using k Suc.prems(1) by (simp add: cols1_def)
      finally show ?thesis using True by (simp add: k_def)
    qed
  qed
  have keep': "\<forall>c<n. c \<notin> set (drop i ord) \<longrightarrow> col_offset (cols' ! c) = col_offset (cols ! c)"
  proof (intro allI impI)
    fix c assume c: "c < n" and "c \<notin> set (drop i ord)"
    with di have ck: "c \<noteq> k" and "c \<notin> set (drop (Suc i) ord)" by simp_all
    with keep c have "col_offset (cols' ! c) = col_offset (cols1 ! c)" by simp
    with ck c k Suc.prems(1) show "col_offset (cols' ! c) = col_offset (cols ! c)"
      by (simp add: cols1_def nth_list_update)
  qed
  from run len same' offs' keep' show ?case
    unfolding step by blast
qed

text \<open>
  Claim C4. Given at least one result, each with a width for every column, and a packing
  order in the first result that is a permutation of the column indices,
  \<open>binaryChunksFromBlobs\<close> returns a header in which the width of each column is the
  largest width observed for it over all results, its type tag is the one of the first
  result, the row count is the sum of the row counts, \<open>rowLength\<close> is the sum of all
  column widths, \<open>dataLength\<close> is \<open>rowLength\<close> times the row count, and the offset of the
  column at position \<open>i\<close> of the packing order is the sum of the widths of the columns
  before it in that order.
\<close>
theorem binaryChunksFromBlobs_layout:
  assumes "answers \<noteq> []"
    and "\<forall>r\<in>set answers. length header \<le> length (h_lengths (p_header r))"
    and "distinct (h_order (p_header (hd answers)))"
    and "set (h_order (p_header (hd answers))) = {..<length header}"
  shows "\<exists>bh chunks. binaryChunksFromBlobs header answers = Inr (bh, chunks) \<and>
     length (columns bh) = length header \<and>
     (\<forall>c<length header.
        col_name (columns bh ! c) = name (header ! c) \<and>
        col_length (columns bh ! c) = Num (int (observed_width answers c)) \<and>
        col_type (columns bh ! c) = array_get (h_types (p_header (hd answers))) c) \<and>
     bh_rowCount bh = sum_list (map (\<lambda>r. h_rowCount (p_header r)) answers) \<and>
     rowLength bh = Num (int (\<Sum>c<length header. observed_width answers c)) \<and>
     dataLength bh = Num (int ((\<Sum>c<length header. observed_width answers c) *
                                sum_list (map (\<lambda>r. h_rowCount (p_header r)) answers))) \<and>
     dataOffset bh = Num 0 \<and>
     (\<forall>i<length header.
        col_offset (columns bh ! (h_order (p_header (hd answers)) ! i)) =
          Num (int (sum_list (map (observed_width answers)
                       (take i (h_order (p_header (hd answers))))))))"
proof -
  from assms(1) obtain r0 rest where res: "answers = r0 # rest" by (cases answers) auto
  define ord where "ord = h_order (p_header r0)"
  define n where "n = length header"
  define W where "W = observed_width answers"
  define cols0 where "cols0 = init_columns header (h_types (p_header r0))"
  define total where "total = sum_list (map (\<lambda>r. h_rowCount (p_header r)) answers)"
  define cols1 where "cols1 = map (\<lambda>c. (cols0 ! c)\<lparr>col_length :=
             fold (\<lambda>r m. Math_max m (to_num (array_get (h_lengths (p_header r)) c))) answers
               (col_length (cols0 ! c))\<rparr>) [0..<length cols0]"
  have ord: "distinct ord" "set ord = {..<n}"
    using assms(3,4) by (simp_all add: ord_def n_def res)
  then have lord: "length ord = n"
    by (metis card_lessThan distinct_card)
  have l0: "length cols0 = n" by (simp add: cols0_def init_columns_def n_def)
  have l1: "length cols1 = n" by (simp add: cols1_def l0)
  obtain ordered where meas: "fold measure_result answers (0, cols0, Map.empty) = (total, cols1, ordered)"
    by (simp add: measure_fold total_def cols1_def)
  have w1: "\<forall>c<n. col_length (cols1 ! c) = Num (int (W c))"
  proof (intro allI impI)
    fix c assume c: "c < n"
    with assms(2) have wf: "\<forall>r\<in>set answers. c < length (h_lengths (p_header r))"
      by (auto simp: n_def)
    from c have z: "col_length (cols0 ! c) = Num 0"
      by (simp add: cols0_def init_columns_def n_def)
    have "fold (\<lambda>r m. Math_max m (to_num (array_get (h_lengths (p_header r)) c))) answers (Num 0)
        = Num (int (W c))"
      using fold_Math_max_nat[OF wf, of 0] fold_max_observed[OF assms(1), of c]
      by (simp add: W_def)
    with c z show "col_length (cols1 ! c) = Num (int (W c))"
      by (simp add: cols1_def l0)
  qed
  have f1: "\<forall>c<n. col_name (cols1 ! c) = name (header ! c) \<and>
      col_type (cols1 ! c) = array_get (h_types (p_header r0)) c"
    by (simp add: cols1_def l0) (simp add: cols0_def init_columns_def n_def)
  from ord(2) have sub: "set ord \<subseteq> {..<n}" by simp
  from layout_columns_ok[OF l1 w1 lord ord(1) sub le0] obtain cols' where
    run: "layout_columns ord [0..<n] (Num 0, cols1) = Inr (Num (int (sum_list (map W ord))), cols')"
    and len: "length cols' = n"
    and same: "\<forall>c<n. col_length (cols' ! c) = col_length (cols1 ! c) \<and>
            col_name (cols' ! c) = col_name (cols1 ! c) \<and>
            col_type (cols' ! c) = col_type (cols1 ! c)"
    and offs: "\<forall>j. 0 \<le> j \<and> j < n \<longrightarrow>
            col_offset (cols' ! (ord ! j)) = Num (int (sum_list (map W (take j ord))))"
    by auto
  have sum: "sum_list (map W ord) = (\<Sum>c<n. W c)"
    using ord by (simp add: sum_list_distinct_conv_sum_set)
  define bh where "bh = \<lparr>columns = cols', names = init_names header, bh_rowCount = total,
      rowLength = Num (int (sum_list (map W ord))),
      dataLength = num_mul (Num (int (sum_list (map W ord)))) (Num (int total)),
      dataOffset = Num 0\<rparr>"
  have eq: "binaryChunksFromBlobs header answers = Inr (bh, ordered)"
    using meas run
    by (simp add: binaryChunksFromBlobs_def res cols0_def[symmetric] ord_def[symmetric]
        n_def[symmetric] bh_def del: fold_simps)
  have p1: "length (columns bh) = length header" by (simp add: bh_def len n_def)
  have p2: "\<forall>c<length header.
        col_name (columns bh ! c) = name (header ! c) \<and>
        col_length (columns bh ! c) = Num (int (observed_width answers c)) \<and>
        col_type (columns bh ! c) = array_get (h_types (p_header (hd answers))) c"
    using same w1 f1 by (simp add: bh_def n_def W_def res)
  have p3: "bh_rowCount bh = sum_list (map (\<lambda>r. h_rowCount (p_header r)) answers)"
    by (simp add: bh_def total_def)
  have rl: "rowLength bh = Num (int (\<Sum>c<n. W c))"
    by (simp only: sum[symmetric]) (simp add: bh_def)
  have p4: "rowLength bh = Num (int (\<Sum>c<length header. observed_width answers c))"
    using rl by (simp only: n_def W_def)
  have dl: "dataLength bh = Num (int ((\<Sum>c<n. W c) * total))"
    by (simp only: sum[symmetric]) (simp add: bh_def)
  have p5: "dataLength bh = Num (int ((\<Sum>c<length header. observed_width answers c) *
                                sum_list (map (\<lambda>r. h_rowCount (p_header r)) answers)))"
    using dl by (simp only: n_def W_def total_def)
  have p6: "dataOffset bh = Num 0" by (simp add: bh_def)
  have p7: "\<forall>i<length header.
        col_offset (columns bh ! (h_order (p_header (hd answers)) ! i)) =
          Num (int (sum_list (map (observed_width answers)
                       (take i (h_order (p_header (hd answers)))))))"
    using offs by (simp add: bh_def n_def W_def res ord_def)
  show ?thesis
    apply (rule exI[of _ bh])
    apply (rule exI[of _ ordered])
    apply (intro conjI)
           apply (rule eq)
          apply (rule p1)
         apply (rule p2)
        apply (rule p3)
       apply (rule p4)
      apply (rule p5)
     apply (rule p6)
    apply (rule p7)
    done
qed

text \<open>Witness for C4: two columns, two answers, the packing order \<open>[1, 0]\<close>.\<close>
lemma binary_example:
  "\<exists>chunks. binaryChunksFromBlobs ex_hdr2 [ex_p0, ex_p1] = Inr (ex_bh, chunks)"
  by (simp add: binaryChunksFromBlobs_def measure_result_def widen_def init_columns_def
      array_get_def ex_hdr2_def ex_p0_def ex_p1_def ex_bh_def upt_rec)

lemma binary_example_widths:
  "observed_width [ex_p0, ex_p1] 0 = 2 \<and> observed_width [ex_p0, ex_p1] 1 = 4"
  by (simp add: observed_width_def ex_p0_def ex_p1_def)

theorem binaryChunksFromBlobs_layout_witness:
  "[ex_p0, ex_p1] \<noteq> [] \<and>
   length ex_hdr2 \<le> length (h_lengths (p_header ex_p0)) \<and>
   length ex_hdr2 \<le> length (h_lengths (p_header ex_p1)) \<and>
   distinct (h_order (p_header (hd [ex_p0, ex_p1]))) \<and>
   set (h_order (p_header (hd [ex_p0, ex_p1]))) = {..<length ex_hdr2} \<and>
   (\<exists>chunks. binaryChunksFromBlobs ex_hdr2 [ex_p0, ex_p1] = Inr (ex_bh, chunks)) \<and>
   (0::nat) < length ex_hdr2 \<and>
   col_length (columns ex_bh ! 0) = Num (int (observed_width [ex_p0, ex_p1] 0)) \<and>
   rowLength ex_bh = Num 6 \<and> dataLength ex_bh = Num 30"
proof -
  have h1: "[ex_p0, ex_p1] \<noteq> []" by simp
  have h2: "\<forall>r\<in>set [ex_p0, ex_p1]. length ex_hdr2 \<le> length (h_lengths (p_header r))"
    by (simp add: ex_p0_def ex_p1_def ex_hdr2_def)
  have h3: "distinct (h_order (p_header (hd [ex_p0, ex_p1])))"
    by (simp add: ex_p0_def)
  have h4: "set (h_order (p_header (hd [ex_p0, ex_p1]))) = {..<length ex_hdr2}"
    by (auto simp: ex_p0_def ex_hdr2_def)
  from binaryChunksFromBlobs_layout[OF h1 h2 h3 h4] binary_example
  have "col_length (columns ex_bh ! 0) = Num (int (observed_width [ex_p0, ex_p1] 0))"
    by (auto simp: ex_hdr2_def)
  with h1 h2 h3 h4 binary_example show ?thesis
    by (simp add: ex_bh_def ex_hdr2_def)
qed

section \<open>Properties of iterateBlobs\<close>

lemma fold_call_row:
  "fold (call_row r) [0..<m] st =
     st\<lparr>calls := calls st @ map (\<lambda>i. (l_index r, i, index st + i)) [0..<m],
        index := index st + m\<rparr>"
  by (induction m) (simp_all add: call_row_def)

lemma invokeIterator_eq:
  "invokeIterator n r st =
    (let st' = st\<lparr>calls := calls st @ map (\<lambda>i. (l_index r, i, index st + i)) [0..<l_rowCount r],
                   index := index st + l_rowCount r\<rparr>
     in if n \<le> blobIndex st' + 1 then st'\<lparr>resolved := True\<rparr> else st')"
  by (simp add: invokeIterator_def fold_call_row)

lemma source_calls_from_append:
  "source_calls_from c g (xs @ ys) =
     source_calls_from c g xs @ source_calls_from (c + length xs) (g + sum_list xs) ys"
  by (induction xs arbitrary: c g) (simp_all add: add.assoc)

lemma source_calls_take_Suc:
  assumes "k < length rcs"
  shows "source_calls (take (Suc k) rcs) =
     source_calls (take k rcs) @ map (\<lambda>i. (k, i, sum_list (take k rcs) + i)) [0..<rcs ! k]"
proof -
  from assms have "take (Suc k) rcs = take k rcs @ [rcs ! k]"
    by (rule take_Suc_conv_app_nth)
  with assms show ?thesis
    by (simp add: source_calls_def source_calls_from_append)
qed

lemma source_calls_prefix:
  "source_calls (take k rcs) = take (length (source_calls (take k rcs))) (source_calls rcs)"
proof -
  have "source_calls rcs = source_calls (take k rcs) @
      source_calls_from (0 + length (take k rcs)) (0 + sum_list (take k rcs)) (drop k rcs)"
    unfolding source_calls_def source_calls_from_append[symmetric] by simp
  then show ?thesis by (metis append_eq_conv_conj)
qed

lemma seed_eq:
  assumes "tasks st = [s..<n]" "s \<le> n"
  shows "seed p st = st\<lparr>tasks := [min (s + p) n..<n],
                         inflight := inflight st @ [s..<min (s + p) n],
                         strays := strays st + (s + p - min (s + p) n)\<rparr>"
  using assms
proof (induction p arbitrary: st s)
  case 0
  then show ?case by simp
next
  case (Suc p)
  show ?case
  proof (cases "s < n")
    case True
    then have t: "tasks st = s # [Suc s..<n]" using Suc.prems by (simp add: upt_conv_Cons)
    define st1 where "st1 = schedule_shift st"
    from t have st1: "st1 = st\<lparr>tasks := [Suc s..<n], inflight := inflight st @ [s]\<rparr>"
      by (simp add: st1_def schedule_shift_def)
    then have "tasks st1 = [Suc s..<n]" "Suc s \<le> n" using True by simp_all
    from Suc.IH[OF this] have "seed p st1 = st1\<lparr>tasks := [min (Suc s + p) n..<n],
                         inflight := inflight st1 @ [Suc s..<min (Suc s + p) n],
                         strays := strays st1 + (Suc s + p - min (Suc s + p) n)\<rparr>" .
    moreover have "[s..<min (s + Suc p) n] = s # [Suc s..<min (Suc s + p) n]"
      using True by (simp add: upt_conv_Cons)
    ultimately show ?thesis
      by (simp add: st1_def[symmetric]) (simp add: st1)
  next
    case False
    with Suc.prems have sn: "s = n" and t: "tasks st = []" by simp_all
    define st1 where "st1 = schedule_shift st"
    from t have st1: "st1 = st\<lparr>strays := strays st + 1\<rparr>"
      by (simp add: st1_def schedule_shift_def)
    then have "tasks st1 = [s..<n]" "s \<le> n" using sn t by simp_all
    from Suc.IH[OF this] sn show ?thesis
      by (simp add: st1_def[symmetric]) (simp add: st1)
  qed
qed

lemma start_iteration_eq:
  "start_iteration p n =
     \<lparr>tasks = [min p n..<n], inflight = [0..<min p n], strays = p - min p n, results = [],
      blobIndex = 0, index = 0, calls = [], resolved = False\<rparr>"
  unfolding start_iteration_def
  by (subst seed_eq[of _ 0 n]) simp_all

lemma start_settled:
  assumes "1 \<le> p"
  shows "settled rcs (start_iteration p (length rcs))"
  unfolding settled_def consistent_def start_iteration_eq
  using assms by (auto simp: source_calls_def intro!: exI[of _ "min p (length rcs)"])

lemma start_pending: "pending (start_iteration p n) = n"
  by (simp add: start_iteration_eq pending_def)

lemma consistentI:
  assumes "tasks st = [s..<length rcs]" "blobIndex st \<le> s" "s \<le> length rcs"
    "blobIndex st < length rcs \<longrightarrow> blobIndex st < s"
    "set (inflight st) \<union> fst ` set (results st) = {blobIndex st..<s}"
    "distinct (inflight st)" "distinct (map fst (results st))"
    "set (inflight st) \<inter> fst ` set (results st) = {}"
    "\<forall>k r. (k, r) \<in> set (results st) \<longrightarrow> l_index r = k \<and> l_rowCount r = rcs ! k"
    "calls st = source_calls (take (blobIndex st) rcs)"
    "index st = sum_list (take (blobIndex st) rcs)"
    "resolved st \<longleftrightarrow> blobIndex st = length rcs \<and> rcs \<noteq> []"
  shows "consistent rcs st"
  unfolding consistent_def using assms by blast

lemma consistentE:
  assumes "consistent rcs st"
  obtains s where "tasks st = [s..<length rcs]" "blobIndex st \<le> s" "s \<le> length rcs"
    "blobIndex st < length rcs \<longrightarrow> blobIndex st < s"
    "set (inflight st) \<union> fst ` set (results st) = {blobIndex st..<s}"
    "distinct (inflight st)" "distinct (map fst (results st))"
    "set (inflight st) \<inter> fst ` set (results st) = {}"
    "\<forall>k r. (k, r) \<in> set (results st) \<longrightarrow> l_index r = k \<and> l_rowCount r = rcs ! k"
    "calls st = source_calls (take (blobIndex st) rcs)"
    "index st = sum_list (take (blobIndex st) rcs)"
    "resolved st \<longleftrightarrow> blobIndex st = length rcs \<and> rcs \<noteq> []"
  using assms unfolding consistent_def by blast

lemma consume:
  assumes t: "tasks st = [s..<length rcs]" and b: "blobIndex st = b" and bs: "b < s"
    and sn: "s \<le> length rcs"
    and cover: "set (inflight st) \<union> fst ` set (results st) = {Suc b..<s}"
    and d1: "distinct (inflight st)" and d2: "distinct (map fst (results st))"
    and dj: "set (inflight st) \<inter> fst ` set (results st) = {}"
    and valid: "\<forall>k r. (k, r) \<in> set (results st) \<longrightarrow> l_index r = k \<and> l_rowCount r = rcs ! k"
    and c: "calls st = source_calls (take b rcs)" and ix: "index st = sum_list (take b rcs)"
    and r: "l_index r = b" "l_rowCount r = rcs ! b" and nr: "\<not> resolved st"
  shows "consistent rcs ((schedule_if_any (invokeIterator (length rcs) r st))\<lparr>blobIndex := Suc b\<rparr>)"
proof -
  from bs sn have bn: "b < length rcs" by simp
  define st2 where "st2 = invokeIterator (length rcs) r st"
  have c2: "calls st2 = source_calls (take (Suc b) rcs)"
    by (simp add: st2_def invokeIterator_eq Let_def source_calls_take_Suc[OF bn] c ix r)
  have i2: "index st2 = sum_list (take (Suc b) rcs)"
    by (simp add: st2_def invokeIterator_eq Let_def take_Suc_conv_app_nth[OF bn] ix r)
  have r2: "resolved st2 \<longleftrightarrow> resolved st \<or> Suc b = length rcs"
    using bn by (auto simp: st2_def invokeIterator_eq Let_def b)
  have same2: "tasks st2 = tasks st" "inflight st2 = inflight st" "results st2 = results st"
    by (simp_all add: st2_def invokeIterator_eq Let_def)
  define st3 where "st3 = (schedule_if_any st2)\<lparr>blobIndex := Suc b\<rparr>"
  have c3: "calls st3 = source_calls (take (blobIndex st3) rcs)"
    and i3: "index st3 = sum_list (take (blobIndex st3) rcs)"
    and res3: "results st3 = results st"
    and b3: "blobIndex st3 = Suc b"
    and r3: "resolved st3 = resolved st2"
    using c2 i2 same2
    by (simp_all add: st3_def schedule_if_any_def schedule_shift_def split: list.splits)
  have nres: "\<not> resolved st \<Longrightarrow> (resolved st3 \<longleftrightarrow> blobIndex st3 = length rcs \<and> rcs \<noteq> [])"
    using r2 r3 b3 bn by auto
  have inf_sub: "set (inflight st) \<subseteq> {Suc b..<s}" "fst ` set (results st) \<subseteq> {Suc b..<s}"
    using cover by auto
  show ?thesis
  proof (cases "s < length rcs")
    case True
    then have ts: "tasks st2 = s # [Suc s..<length rcs]"
      by (simp add: same2 t upt_conv_Cons)
    then have t3: "tasks st3 = [Suc s..<length rcs]" and f3: "inflight st3 = inflight st @ [s]"
      by (simp_all add: st3_def schedule_if_any_def schedule_shift_def same2)
    have cov3: "set (inflight st3) \<union> fst ` set (results st3) = {blobIndex st3..<Suc s}"
      using cover bs by (auto simp: f3 res3 b3)
    have d3: "distinct (inflight st3)" using d1 inf_sub by (auto simp: f3)
    have dj3: "set (inflight st3) \<inter> fst ` set (results st3) = {}"
      using dj inf_sub by (auto simp: f3 res3)
    show ?thesis
      unfolding st3_def[symmetric] st2_def[symmetric]
    proof (rule consistentI[where s = "Suc s"])
      show "tasks st3 = [Suc s..<length rcs]" by (rule t3)
      show "blobIndex st3 \<le> Suc s" using bs by (simp add: b3)
      show "Suc s \<le> length rcs" using True by simp
      show "blobIndex st3 < length rcs \<longrightarrow> blobIndex st3 < Suc s" using bs by (simp add: b3)
      show "set (inflight st3) \<union> fst ` set (results st3) = {blobIndex st3..<Suc s}" by (rule cov3)
      show "distinct (inflight st3)" by (rule d3)
      show "distinct (map fst (results st3))" using d2 by (simp add: res3)
      show "set (inflight st3) \<inter> fst ` set (results st3) = {}" by (rule dj3)
      show "\<forall>k r. (k, r) \<in> set (results st3) \<longrightarrow> l_index r = k \<and> l_rowCount r = rcs ! k"
        using valid by (simp add: res3)
      show "calls st3 = source_calls (take (blobIndex st3) rcs)" by (rule c3)
      show "index st3 = sum_list (take (blobIndex st3) rcs)" by (rule i3)
      show "resolved st3 \<longleftrightarrow> blobIndex st3 = length rcs \<and> rcs \<noteq> []" by (rule nres[OF nr])
    qed
  next
    case False
    with sn have se: "s = length rcs" by simp
    then have t3: "tasks st3 = [s..<length rcs]" and f3: "inflight st3 = inflight st"
      by (simp_all add: st3_def schedule_if_any_def same2 t)
    show ?thesis
      unfolding st3_def[symmetric] st2_def[symmetric]
    proof (rule consistentI[where s = s])
      show "tasks st3 = [s..<length rcs]" by (rule t3)
      show "blobIndex st3 \<le> s" using bs by (simp add: b3)
      show "s \<le> length rcs" by (rule sn)
      show "blobIndex st3 < length rcs \<longrightarrow> blobIndex st3 < s" using se by simp
      show "set (inflight st3) \<union> fst ` set (results st3) = {blobIndex st3..<s}"
        using cover by (simp add: f3 res3 b3)
      show "distinct (inflight st3)" using d1 by (simp add: f3)
      show "distinct (map fst (results st3))" using d2 by (simp add: res3)
      show "set (inflight st3) \<inter> fst ` set (results st3) = {}" using dj by (simp add: f3 res3)
      show "\<forall>k r. (k, r) \<in> set (results st3) \<longrightarrow> l_index r = k \<and> l_rowCount r = rcs ! k"
        using valid by (simp add: res3)
      show "calls st3 = source_calls (take (blobIndex st3) rcs)" by (rule c3)
      show "index st3 = sum_list (take (blobIndex st3) rcs)" by (rule i3)
      show "resolved st3 \<longleftrightarrow> blobIndex st3 = length rcs \<and> rcs \<noteq> []" by (rule nres[OF nr])
    qed
  qed
qed

lemma keys_delete: "fst ` set (AList.delete k al) = fst ` set al - {k}"
  by (force simp: AList.delete_eq)

lemma invokeIterator_results:
  "(invokeIterator n r st)\<lparr>results := X\<rparr> = invokeIterator n r (st\<lparr>results := X\<rparr>)"
  by (simp add: invokeIterator_eq Let_def)

lemma cover_step:
  assumes "A \<union> K = {b..<s}" "b \<notin> A"
  shows "A \<union> (K - {b}) = {Suc b..<(s::nat)}"
proof -
  from assms(2) have "A \<union> (K - {b}) = (A \<union> K) - {b}" by blast
  also have "\<dots> = {b..<s} - {b}" by (simp only: assms(1))
  also have "\<dots> = {Suc b..<s}" by auto
  finally show ?thesis .
qed

lemma blobIndex_schedule_if_any [simp]: "blobIndex (schedule_if_any st) = blobIndex st"
  by (simp add: schedule_if_any_def schedule_shift_def split: list.splits)

lemma blobIndex_invokeIterator [simp]: "blobIndex (invokeIterator n r st) = blobIndex st"
  by (simp add: invokeIterator_eq Let_def)

lemma drain_unfold:
  "drain n st =
    (case map_of (results st) (Suc (blobIndex st)) of
       None \<Rightarrow> st\<lparr>blobIndex := Suc (blobIndex st)\<rparr>
     | Some r \<Rightarrow>
         drain n (schedule_if_any
           ((invokeIterator n r (st\<lparr>blobIndex := Suc (blobIndex st)\<rparr>))
              \<lparr>results := AList.delete (Suc (blobIndex st)) (results st)\<rparr>)))"
  by (subst drain.simps) (simp add: Let_def split: option.splits)

lemma drain_settled:
  assumes "consistent rcs (st\<lparr>blobIndex := Suc (blobIndex st)\<rparr>)" and "n = length rcs"
  shows "settled rcs (drain n st)"
  using assms
proof (induction n st rule: drain.induct)
  case (1 n st)
  define st1 where "st1 = st\<lparr>blobIndex := Suc (blobIndex st)\<rparr>"
  have st1': "st1 = st\<lparr>blobIndex := blobIndex st + 1\<rparr>" by (simp add: st1_def)
  have f1: "results st1 = results st" "blobIndex st1 = Suc (blobIndex st)" by (simp_all add: st1_def)
  have con: "consistent rcs st1" using "1.prems"(1) by (simp add: st1_def)
  show ?case
  proof (cases "map_of (results st1) (blobIndex st1)")
    case None
    then have "blobIndex st1 \<notin> fst ` set (results st1)"
      by (simp add: map_of_eq_None_iff)
    moreover from None have "map_of (results st) (Suc (blobIndex st)) = None"
      by (simp add: f1)
    then have "drain n st = st1"
      by (subst drain_unfold) (simp add: st1_def)
    ultimately show ?thesis using con by (simp add: settled_def)
  next
    case (Some r)
    define b1 where "b1 = blobIndex st1"
    define st' where "st' = st1\<lparr>results := AList.delete b1 (results st1)\<rparr>"
    from Some have mem: "(b1, r) \<in> set (results st1)"
      unfolding b1_def by (rule map_of_SomeD)
    then have key: "b1 \<in> fst ` set (results st1)" by force
    from con obtain s where
      t: "tasks st1 = [s..<length rcs]" and sn: "s \<le> length rcs"
      and cover: "set (inflight st1) \<union> fst ` set (results st1) = {blobIndex st1..<s}"
      and d1: "distinct (inflight st1)" and d2: "distinct (map fst (results st1))"
      and dj: "set (inflight st1) \<inter> fst ` set (results st1) = {}"
      and valid: "\<forall>k r. (k, r) \<in> set (results st1) \<longrightarrow> l_index r = k \<and> l_rowCount r = rcs ! k"
      and c: "calls st1 = source_calls (take (blobIndex st1) rcs)"
      and ix: "index st1 = sum_list (take (blobIndex st1) rcs)"
      and rs: "resolved st1 \<longleftrightarrow> blobIndex st1 = length rcs \<and> rcs \<noteq> []"
      by (rule consistentE)
    from key cover have bs: "b1 < s" by (auto simp: b1_def)
    from key dj have nf: "b1 \<notin> set (inflight st1)" by auto
    have cover': "set (inflight st') \<union> fst ` set (results st') = {Suc b1..<s}"
      using cover_step[OF cover] nf by (simp add: st'_def keys_delete b1_def)
    have "consistent rcs ((schedule_if_any (invokeIterator (length rcs) r st'))\<lparr>blobIndex := Suc b1\<rparr>)"
    proof (rule consume[where s = s])
      show "tasks st' = [s..<length rcs]" by (simp add: st'_def t)
      show "blobIndex st' = b1" by (simp add: st'_def b1_def)
      show "b1 < s" by (rule bs)
      show "s \<le> length rcs" by (rule sn)
      show "set (inflight st') \<union> fst ` set (results st') = {Suc b1..<s}" by (rule cover')
      show "distinct (inflight st')" using d1 by (simp add: st'_def)
      show "distinct (map fst (results st'))" using d2 by (simp add: st'_def distinct_delete)
      show "set (inflight st') \<inter> fst ` set (results st') = {}"
        using dj by (auto simp: st'_def keys_delete)
      show "\<forall>k r. (k, r) \<in> set (results st') \<longrightarrow> l_index r = k \<and> l_rowCount r = rcs ! k"
        using valid by (auto simp: st'_def AList.delete_eq)
      show "calls st' = source_calls (take b1 rcs)" using c by (simp add: st'_def b1_def)
      show "index st' = sum_list (take b1 rcs)" using ix by (simp add: st'_def b1_def)
      show "l_index r = b1" "l_rowCount r = rcs ! b1" using valid mem by auto
      show "\<not> resolved st'" using rs bs sn by (simp add: st'_def b1_def)
    qed
    moreover have e1: "(invokeIterator n r st1)\<lparr>results := AList.delete (blobIndex st1) (results st1)\<rparr>
        = invokeIterator (length rcs) r st'"
      by (simp add: invokeIterator_results st'_def b1_def "1.prems"(2))
    moreover have e2: "blobIndex (schedule_if_any (invokeIterator (length rcs) r st')) = b1"
      by (simp add: st'_def b1_def)
    ultimately have pre: "consistent rcs
        ((schedule_if_any ((invokeIterator n r st1)\<lparr>results := AList.delete (blobIndex st1) (results st1)\<rparr>))
           \<lparr>blobIndex := Suc (blobIndex (schedule_if_any
              ((invokeIterator n r st1)\<lparr>results := AList.delete (blobIndex st1) (results st1)\<rparr>)))\<rparr>)"
      by (simp only:)
    from Some have "map_of (results st) (Suc (blobIndex st)) = Some r"
      by (simp add: f1)
    then have "drain n st = drain n (schedule_if_any
        ((invokeIterator n r st1)\<lparr>results := AList.delete (blobIndex st1) (results st1)\<rparr>))"
      by (subst drain_unfold) (simp add: st1_def)
    with "1.IH"[OF st1' Some pre "1.prems"(2)] show ?thesis by simp
  qed
qed

lemma set_update_new:
  "k \<notin> fst ` set al \<Longrightarrow> set (AList.update k v al) = insert (k, v) (set al)"
  by (induction al) auto

lemma complete_settled:
  assumes "settled rcs st" and k: "k \<in> set (inflight st)"
  shows "settled rcs (complete rcs k st)"
proof -
  from assms(1) have con: "consistent rcs st" and nb: "blobIndex st \<notin> fst ` set (results st)"
    by (simp_all add: settled_def)
  from con obtain s where
    t: "tasks st = [s..<length rcs]" and bs: "blobIndex st \<le> s" and sn: "s \<le> length rcs"
    and nx: "blobIndex st < length rcs \<longrightarrow> blobIndex st < s"
    and cover: "set (inflight st) \<union> fst ` set (results st) = {blobIndex st..<s}"
    and d1: "distinct (inflight st)" and d2: "distinct (map fst (results st))"
    and dj: "set (inflight st) \<inter> fst ` set (results st) = {}"
    and valid: "\<forall>k r. (k, r) \<in> set (results st) \<longrightarrow> l_index r = k \<and> l_rowCount r = rcs ! k"
    and c: "calls st = source_calls (take (blobIndex st) rcs)"
    and ix: "index st = sum_list (take (blobIndex st) rcs)"
    and rs: "resolved st \<longleftrightarrow> blobIndex st = length rcs \<and> rcs \<noteq> []"
    by (rule consistentE)
  define b where "b = blobIndex st"
  define r where "r = \<lparr>l_index = k, l_rowCount = rcs ! k\<rparr>"
  define st0 where "st0 = st\<lparr>inflight := remove1 k (inflight st)\<rparr>"
  from k cover have kr: "b \<le> k" "k < s" by (auto simp: b_def)
  from k dj have knk: "k \<notin> fst ` set (results st)" by auto
  have set0: "set (inflight st0) = set (inflight st) - {k}"
    using d1 by (simp add: st0_def)
  have d0: "distinct (inflight st0)" using d1 by (simp add: st0_def)
  have res0: "results st0 = results st" by (simp add: st0_def)
  have comp: "complete rcs k st = handleResult (length rcs) r st0"
    by (simp add: complete_def r_def st0_def)
  show ?thesis
  proof (cases "k = b")
    case True
    have cover0: "set (inflight st0) \<union> fst ` set (results st0) = {Suc b..<s}"
    proof -
      have "fst ` set (results st) \<union> (set (inflight st) - {b}) = {Suc b..<s}"
        using cover nb by (intro cover_step) (auto simp: b_def)
      then show ?thesis using True by (simp add: set0 res0 Un_commute)
    qed
    have "consistent rcs ((schedule_if_any (invokeIterator (length rcs) r st0))\<lparr>blobIndex := Suc b\<rparr>)"
    proof (rule consume[where s = s])
      show "tasks st0 = [s..<length rcs]" by (simp add: st0_def t)
      show "blobIndex st0 = b" by (simp add: st0_def b_def)
      show "b < s" using kr True by simp
      show "s \<le> length rcs" by (rule sn)
      show "set (inflight st0) \<union> fst ` set (results st0) = {Suc b..<s}" by (rule cover0)
      show "distinct (inflight st0)" by (rule d0)
      show "distinct (map fst (results st0))" using d2 by (simp add: st0_def)
      show "set (inflight st0) \<inter> fst ` set (results st0) = {}"
        using dj by (auto simp: set0 res0)
      show "\<forall>k r. (k, r) \<in> set (results st0) \<longrightarrow> l_index r = k \<and> l_rowCount r = rcs ! k"
        using valid by (simp add: st0_def)
      show "calls st0 = source_calls (take b rcs)" using c by (simp add: st0_def b_def)
      show "index st0 = sum_list (take b rcs)" using ix by (simp add: st0_def b_def)
      show "l_index r = b" "l_rowCount r = rcs ! b" using True by (simp_all add: r_def)
      show "\<not> resolved st0" using rs kr sn True by (simp add: st0_def b_def)
    qed
    then have "consistent rcs ((schedule_if_any (invokeIterator (length rcs) r st0))
        \<lparr>blobIndex := Suc (blobIndex (schedule_if_any (invokeIterator (length rcs) r st0)))\<rparr>)"
      by (simp add: st0_def b_def)
    from drain_settled[OF this refl]
    have "settled rcs (drain (length rcs) (schedule_if_any (invokeIterator (length rcs) r st0)))" .
    moreover have "handleResult (length rcs) r st0 =
        drain (length rcs) (schedule_if_any (invokeIterator (length rcs) r st0))"
      using True by (simp add: handleResult_def r_def st0_def b_def)
    ultimately show ?thesis by (simp only: comp)
  next
    case False
    define st1 where "st1 = st0\<lparr>results := AList.update k r (results st0)\<rparr>"
    have h: "handleResult (length rcs) r st0 = st1"
      using False by (simp add: handleResult_def st1_def r_def st0_def b_def)
    have keys1: "fst ` set (results st1) = insert k (fst ` set (results st))"
      by (simp add: st1_def res0 dom_update)
    have set1: "set (results st1) = insert (k, r) (set (results st))"
      using knk by (simp add: st1_def res0 set_update_new)
    have inf1: "set (inflight st1) = set (inflight st) - {k}" by (simp add: st1_def set0)
    have "consistent rcs st1"
    proof (rule consistentI[where s = s])
      show "tasks st1 = [s..<length rcs]" by (simp add: st1_def st0_def t)
      show "blobIndex st1 \<le> s" using bs by (simp add: st1_def st0_def)
      show "s \<le> length rcs" by (rule sn)
      show "blobIndex st1 < length rcs \<longrightarrow> blobIndex st1 < s" using nx by (simp add: st1_def st0_def)
      show "set (inflight st1) \<union> fst ` set (results st1) = {blobIndex st1..<s}"
      proof -
        have "blobIndex st1 = blobIndex st" by (simp add: st1_def st0_def)
        moreover from k have "(set (inflight st) - {k}) \<union> insert k (fst ` set (results st))
            = set (inflight st) \<union> fst ` set (results st)" by blast
        ultimately show ?thesis using cover by (simp add: inf1 keys1)
      qed
      show "distinct (inflight st1)" using d0 by (simp add: st1_def)
      show "distinct (map fst (results st1))" using d2 by (simp add: st1_def res0 distinct_update)
      show "set (inflight st1) \<inter> fst ` set (results st1) = {}"
        using dj by (auto simp: inf1 keys1)
      show "\<forall>k r. (k, r) \<in> set (results st1) \<longrightarrow> l_index r = k \<and> l_rowCount r = rcs ! k"
        using valid by (auto simp: set1 r_def)
      show "calls st1 = source_calls (take (blobIndex st1) rcs)" using c by (simp add: st1_def st0_def)
      show "index st1 = sum_list (take (blobIndex st1) rcs)" using ix by (simp add: st1_def st0_def)
      show "resolved st1 \<longleftrightarrow> blobIndex st1 = length rcs \<and> rcs \<noteq> []" using rs by (simp add: st1_def st0_def)
    qed
    moreover have "blobIndex st1 \<notin> fst ` set (results st1)"
      using nb False by (simp add: keys1) (simp add: st1_def st0_def b_def)
    ultimately show ?thesis by (simp add: settled_def comp h)
  qed
qed

lemma run_settled:
  "settled rcs st \<Longrightarrow> run rcs order st = Some st' \<Longrightarrow> settled rcs st'"
proof (induction order arbitrary: st)
  case Nil
  then show ?case by simp
next
  case (Cons k ks)
  from Cons.prems(2) have k: "k \<in> set (inflight st)" and r: "run rcs ks (complete rcs k st) = Some st'"
    by (simp_all split: if_splits)
  from Cons.IH[OF complete_settled[OF Cons.prems(1) k] r] show ?case .
qed

lemma pending_schedule_if_any [simp]: "pending (schedule_if_any st) = pending st"
  by (simp add: pending_def schedule_if_any_def schedule_shift_def split: list.splits)

lemma pending_invokeIterator [simp]: "pending (invokeIterator n r st) = pending st"
  by (simp add: pending_def invokeIterator_eq Let_def)

lemma pending_updates [simp]:
  "pending (st\<lparr>results := X\<rparr>) = pending st"
  "pending (st\<lparr>blobIndex := Y\<rparr>) = pending st"
  by (simp_all add: pending_def)

lemma pending_drain [simp]: "pending (drain n st) = pending st"
proof (induction n st rule: drain.induct)
  case (1 n st)
  show ?case
  proof (cases "map_of (results st) (Suc (blobIndex st))")
    case None
    then show ?thesis by (subst drain_unfold) simp
  next
    case (Some r)
    have "map_of (results (st\<lparr>blobIndex := blobIndex st + 1\<rparr>))
        (blobIndex (st\<lparr>blobIndex := blobIndex st + 1\<rparr>)) = Some r"
      using Some by simp
    from "1.IH"[OF refl this] Some show ?thesis
      by (subst drain_unfold) simp
  qed
qed

lemma pending_complete:
  assumes "k \<in> set (inflight st)"
  shows "Suc (pending (complete rcs k st)) = pending st"
proof -
  from assms have "0 < length (inflight st)" by (cases "inflight st") auto
  with assms have "Suc (length (remove1 k (inflight st))) = length (inflight st)"
    by (simp add: length_remove1)
  then have "Suc (pending (st\<lparr>inflight := remove1 k (inflight st)\<rparr>)) = pending st"
    by (simp add: pending_def)
  then show ?thesis
    by (auto simp: complete_def handleResult_def)
qed

lemma pending_run:
  "run rcs order st = Some st' \<Longrightarrow> pending st' + length order = pending st"
proof (induction order arbitrary: st)
  case Nil
  then show ?case by simp
next
  case (Cons k ks)
  from Cons.prems have k: "k \<in> set (inflight st)" and r: "run rcs ks (complete rcs k st) = Some st'"
    by (simp_all split: if_splits)
  from Cons.IH[OF r] pending_complete[OF k, of rcs] show ?case by simp
qed

lemma settled_next:
  assumes "settled rcs st" "blobIndex st < length rcs"
  shows "blobIndex st \<in> set (inflight st)"
proof -
  from assms(1) have con: "consistent rcs st" and nb: "blobIndex st \<notin> fst ` set (results st)"
    by (simp_all add: settled_def)
  from con obtain s where
    "blobIndex st < length rcs \<longrightarrow> blobIndex st < s"
    "set (inflight st) \<union> fst ` set (results st) = {blobIndex st..<s}"
    by (rule consistentE)
  with assms(2) have "blobIndex st \<in> set (inflight st) \<union> fst ` set (results st)" by simp
  with nb show ?thesis by simp
qed

lemma settled_done:
  assumes "settled rcs st"
  shows "blobIndex st \<le> length rcs" and "pending st = 0 \<longleftrightarrow> blobIndex st = length rcs"
proof -
  from assms have con: "consistent rcs st" by (simp add: settled_def)
  from con obtain s where
    t: "tasks st = [s..<length rcs]" and bs: "blobIndex st \<le> s" and sn: "s \<le> length rcs"
    and cover: "set (inflight st) \<union> fst ` set (results st) = {blobIndex st..<s}"
    by (rule consistentE)
  from bs sn show "blobIndex st \<le> length rcs" by simp
  show "pending st = 0 \<longleftrightarrow> blobIndex st = length rcs"
  proof
    assume "pending st = 0"
    then have "inflight st = []" by (simp add: pending_def)
    with settled_next[OF assms] have "\<not> blobIndex st < length rcs" by auto
    with bs sn show "blobIndex st = length rcs" by simp
  next
    assume e: "blobIndex st = length rcs"
    with bs sn have "s = length rcs" by simp
    with cover e t show "pending st = 0" by (simp add: pending_def)
  qed
qed

lemma run_append:
  "run rcs (xs @ ys) st = (case run rcs xs st of None \<Rightarrow> None | Some st' \<Rightarrow> run rcs ys st')"
  by (induction xs arbitrary: st) simp_all

lemma run_can_finish:
  assumes "settled rcs st" "rcs \<noteq> []"
  shows "\<exists>rest st'. run rcs rest st = Some st' \<and> resolved st'"
  using assms(1)
proof (induction "pending st" arbitrary: st)
  case 0
  then have "blobIndex st = length rcs" using settled_done(2)[of rcs st] by simp
  moreover from 0 have "consistent rcs st" by (simp add: settled_def)
  ultimately have "resolved st" using assms(2) by (auto elim: consistentE)
  then have "run rcs [] st = Some st \<and> resolved st" by simp
  then show ?case by blast
next
  case (Suc m)
  then have "blobIndex st \<noteq> length rcs" using settled_done(2)[of rcs st] by simp
  with settled_done(1)[OF Suc.prems] have "blobIndex st < length rcs" by simp
  from settled_next[OF Suc.prems this] have k: "blobIndex st \<in> set (inflight st)" .
  define st1 where "st1 = complete rcs (blobIndex st) st"
  have s1: "settled rcs st1" unfolding st1_def by (rule complete_settled[OF Suc.prems k])
  from pending_complete[OF k, of rcs] Suc.hyps(2) have "m = pending st1" by (simp add: st1_def)
  from Suc.hyps(1)[OF this s1] obtain rest st' where "run rcs rest st1 = Some st'" "resolved st'"
    by blast
  with k have "run rcs (blobIndex st # rest) st = Some st' \<and> resolved st'"
    by (simp add: st1_def)
  then show ?case by blast
qed

lemma source_calls_from_indices:
  "map (\<lambda>c. snd (snd c)) (source_calls_from c g rcs) = [g..<g + sum_list rcs]"
proof (induction rcs arbitrary: c g)
  case Nil
  show ?case by simp
next
  case (Cons rc rcs)
  have "map (\<lambda>i. g + i) [0..<rc] = [g..<g + rc]"
    using map_add_upt[of g rc] by (simp add: add.commute)
  moreover have "[g..<g + (rc + sum_list rcs)] = [g..<g + rc] @ [g + rc..<g + (rc + sum_list rcs)]"
    using upt_add_eq_append[of g "g + rc" "sum_list rcs"] by (simp add: add.assoc)
  ultimately show ?case
    by (simp add: Cons.IH comp_def add.assoc)
qed

lemma source_calls_from_rows:
  "map (\<lambda>c. (fst c, fst (snd c))) (source_calls_from c g rcs) =
     concat (map (\<lambda>j. map (Pair (c + j)) [0..<rcs ! j]) [0..<length rcs])"
proof (induction rcs arbitrary: c g)
  case Nil
  show ?case by simp
next
  case (Cons rc rcs)
  have "[0..<length (rc # rcs)] = 0 # map Suc [0..<length rcs]"
    by (simp add: upt_conv_Cons map_Suc_upt del: upt_Suc)
  then show ?case
    by (simp add: Cons.IH comp_def del: upt_Suc)
qed

lemma iterateBlobs_settled:
  assumes "1 \<le> p" and "iterateBlobs p rcs order = Some st"
  shows "settled rcs st" and "pending st + length order = length rcs"
proof -
  from assms(2) have r: "run rcs order (start_iteration p (length rcs)) = Some st"
    by (simp add: iterateBlobs_def)
  from run_settled[OF start_settled[OF assms(1)] r] show "settled rcs st" .
  from pending_run[OF r] show "pending st + length order = length rcs"
    by (simp add: start_pending)
qed

text \<open>
  Claim C1. For a pool of at least one worker and any order in which the scheduled tasks
  complete, the calls of the row callback made so far are the calls for the chunks before
  \<open>blobIndex\<close>, in source order: they are an initial part of the calls for the whole
  source, so no row is passed twice or out of order. No more tasks complete than there
  are blobs, and once all of them have completed the calls are exactly the calls for the
  whole source: every row of chunk 0 in row order, then every row of chunk 1, and so on,
  the second argument counting the rows from 0.
\<close>
theorem iterateBlobs_source_order:
  assumes "1 \<le> p" and "iterateBlobs p rcs order = Some st"
  shows "calls st = source_calls (take (blobIndex st) rcs) \<and>
    calls st = take (length (calls st)) (source_calls rcs) \<and>
    length order \<le> length rcs \<and>
    (length order = length rcs \<longrightarrow> calls st = source_calls rcs) \<and>
    map (\<lambda>c. (fst c, fst (snd c))) (source_calls rcs) =
      concat (map (\<lambda>j. map (Pair j) [0..<rcs ! j]) [0..<length rcs]) \<and>
    map (\<lambda>c. snd (snd c)) (source_calls rcs) = [0..<sum_list rcs]"
proof -
  note s = iterateBlobs_settled[OF assms]
  from s(1) have c: "calls st = source_calls (take (blobIndex st) rcs)"
    by (auto simp: settled_def elim: consistentE)
  have pre: "calls st = take (length (calls st)) (source_calls rcs)"
    unfolding c by (rule source_calls_prefix)
  from s(2) have le: "length order \<le> length rcs" by simp
  have full: "length order = length rcs \<longrightarrow> calls st = source_calls rcs"
  proof
    assume "length order = length rcs"
    with s(2) have "pending st = 0" by simp
    with settled_done(2)[OF s(1)] have "blobIndex st = length rcs" by simp
    with c show "calls st = source_calls rcs" by simp
  qed
  have rows: "map (\<lambda>c. (fst c, fst (snd c))) (source_calls rcs) =
      concat (map (\<lambda>j. map (Pair j) [0..<rcs ! j]) [0..<length rcs])"
    using source_calls_from_rows[of 0 0 rcs] by (simp add: source_calls_def)
  have idx: "map (\<lambda>c. snd (snd c)) (source_calls rcs) = [0..<sum_list rcs]"
    using source_calls_from_indices[of 0 0 rcs] by (simp add: source_calls_def)
  from c pre le full rows idx show ?thesis by (intro conjI)
qed

text \<open>
  Claim C8. For a pool of at least one worker, at least one blob and any order in which
  the scheduled tasks complete: \<^verbatim>\<open>resolve()\<close> has been called exactly when all chunks have
  been consumed, which is exactly when as many tasks have completed as there are blobs,
  and then every row has been passed to the callback. As long as it has not been called,
  the task of the next expected chunk is in flight, every task in flight can complete,
  and the run can be continued to a state where \<^verbatim>\<open>resolve()\<close> has been called: buffered
  answers never block the operation.
\<close>
theorem iterateBlobs_resolves:
  assumes "1 \<le> p" and "rcs \<noteq> []" and "iterateBlobs p rcs order = Some st"
  shows "length order \<le> length rcs \<and>
    (resolved st \<longleftrightarrow> length order = length rcs) \<and>
    (resolved st \<longleftrightarrow> blobIndex st = length rcs) \<and>
    (resolved st \<longrightarrow> calls st = source_calls rcs) \<and>
    (\<not> resolved st \<longrightarrow> blobIndex st \<in> set (inflight st)) \<and>
    (\<forall>k\<in>set (inflight st). iterateBlobs p rcs (order @ [k]) \<noteq> None) \<and>
    (\<exists>rest st'. iterateBlobs p rcs (order @ rest) = Some st' \<and> resolved st')"
proof -
  note s = iterateBlobs_settled[OF assms(1,3)]
  from assms(3) have r: "run rcs order (start_iteration p (length rcs)) = Some st"
    by (simp add: iterateBlobs_def)
  from s(1) have c: "calls st = source_calls (take (blobIndex st) rcs)"
    and rs: "resolved st \<longleftrightarrow> blobIndex st = length rcs \<and> rcs \<noteq> []"
    by (auto simp: settled_def elim: consistentE)
  from s(2) have le: "length order \<le> length rcs" by simp
  from rs assms(2) have rb: "resolved st \<longleftrightarrow> blobIndex st = length rcs" by simp
  have ro: "resolved st \<longleftrightarrow> length order = length rcs"
    using rb settled_done(2)[OF s(1)] s(2) by auto
  have rc: "resolved st \<longrightarrow> calls st = source_calls rcs"
    using rb c by simp
  have nx: "\<not> resolved st \<longrightarrow> blobIndex st \<in> set (inflight st)"
  proof
    assume "\<not> resolved st"
    with rb settled_done(1)[OF s(1)] have "blobIndex st < length rcs" by simp
    from settled_next[OF s(1) this] show "blobIndex st \<in> set (inflight st)" .
  qed
  have any: "\<forall>k\<in>set (inflight st). iterateBlobs p rcs (order @ [k]) \<noteq> None"
    by (simp add: iterateBlobs_def run_append r)
  from run_can_finish[OF s(1) assms(2)] obtain rest st' where
    "run rcs rest st = Some st'" "resolved st'" by blast
  then have "iterateBlobs p rcs (order @ rest) = Some st' \<and> resolved st'"
    by (simp add: iterateBlobs_def run_append r)
  then have fin: "\<exists>rest st'. iterateBlobs p rcs (order @ rest) = Some st' \<and> resolved st'"
    by blast
  from le ro rb rc nx any fin show ?thesis by (intro conjI)
qed

text \<open>
  Witnesses for C1 and C8: four blobs of 2, 0, 1 and 3 rows on a pool of two workers,
  the tasks completing in the order 1, 0, 3, 2.
\<close>
lemmas iterate_eval = iterateBlobs_def start_iteration_eq schedule_shift_def schedule_if_any_def
  complete_def handleResult_def drain.simps invokeIterator_eq Let_def upt_rec

lemma iterate_example:
  "iterateBlobs 2 [2, 0, 1, 3] [1, 0, 3, 2] =
     Some \<lparr>tasks = [], inflight = [], strays = 0, results = [], blobIndex = 4, index = 6,
           calls = [(0, 0, 0), (0, 1, 1), (2, 0, 2), (3, 0, 3), (3, 1, 4), (3, 2, 5)],
           resolved = True\<rparr>"
  by (simp add: iterate_eval)

lemma iterate_example_partial:
  "iterateBlobs 2 [2, 0, 1, 3] [1] =
     Some \<lparr>tasks = [2, 3], inflight = [0], strays = 0,
           results = [(1, \<lparr>l_index = 1, l_rowCount = 0\<rparr>)], blobIndex = 0, index = 0,
           calls = [], resolved = False\<rparr>"
  by (simp add: iterate_eval)

lemma source_calls_example:
  "source_calls [2, 0, 1, 3] = [(0, 0, 0), (0, 1, 1), (2, 0, 2), (3, 0, 3), (3, 1, 4), (3, 2, 5)]"
  by (simp add: source_calls_def upt_rec)

text \<open>Witness for C1: the complete run.\<close>
theorem iterateBlobs_source_order_witness:
  "(1::nat) \<le> 2 \<and>
   iterateBlobs 2 [2, 0, 1, 3] [1, 0, 3, 2] =
     Some \<lparr>tasks = [], inflight = [], strays = 0, results = [], blobIndex = 4, index = 6,
           calls = [(0, 0, 0), (0, 1, 1), (2, 0, 2), (3, 0, 3), (3, 1, 4), (3, 2, 5)],
           resolved = True\<rparr> \<and>
   length [1, 0, 3, 2 :: nat] = length [2, 0, 1, 3 :: nat] \<and>
   source_calls [2, 0, 1, 3] = [(0, 0, 0), (0, 1, 1), (2, 0, 2), (3, 0, 3), (3, 1, 4), (3, 2, 5)]"
proof -
  have p: "(1::nat) \<le> 2" by simp
  from iterateBlobs_source_order[OF p iterate_example]
  have "source_calls [2, 0, 1, 3] = [(0, 0, 0), (0, 1, 1), (2, 0, 2), (3, 0, 3), (3, 1, 4), (3, 2, 5)]"
    by simp
  with iterate_example show ?thesis by simp
qed

text \<open>Witness for C8: the run after its first answer, which is buffered, and the complete run.\<close>
theorem iterateBlobs_resolves_witness:
  "(1::nat) \<le> 2 \<and> [2, 0, 1, 3 :: nat] \<noteq> [] \<and>
   iterateBlobs 2 [2, 0, 1, 3] [1] =
     Some \<lparr>tasks = [2, 3], inflight = [0], strays = 0,
           results = [(1, \<lparr>l_index = 1, l_rowCount = 0\<rparr>)], blobIndex = 0, index = 0,
           calls = [], resolved = False\<rparr> \<and>
   iterateBlobs 2 [2, 0, 1, 3] ([1] @ [0]) \<noteq> None \<and>
   iterateBlobs 2 [2, 0, 1, 3] [1, 0, 3, 2] =
     Some \<lparr>tasks = [], inflight = [], strays = 0, results = [], blobIndex = 4, index = 6,
           calls = [(0, 0, 0), (0, 1, 1), (2, 0, 2), (3, 0, 3), (3, 1, 4), (3, 2, 5)],
           resolved = True\<rparr> \<and>
   length [1, 0, 3, 2 :: nat] = length [2, 0, 1, 3 :: nat]"
proof -
  have p: "(1::nat) \<le> 2" and ne: "[2, 0, 1, 3 :: nat] \<noteq> []" by simp_all
  from iterateBlobs_resolves[OF p ne iterate_example_partial]
  have "iterateBlobs 2 [2, 0, 1, 3] ([1] @ [0]) \<noteq> None" by simp
  moreover from iterateBlobs_resolves[OF p ne iterate_example]
  have "length [1, 0, 3, 2 :: nat] = length [2, 0, 1, 3 :: nat]" by simp
  ultimately show ?thesis using iterate_example iterate_example_partial by simp
qed

end
